theory Spec2Isabelle
  imports Main "HOL-Library.Word"
begin

text \<open>
  A model of \<^verbatim>\<open>public/script.js\<close>, the script of a chat page: the formatter
  \<^verbatim>\<open>formatMessageText\<close> with the regular expressions it applies, the two functions
  that write to the chat box, and the submit handler with its request. The definitions
  come first; the properties proved of them follow.
\<close>

section \<open>JavaScript strings and character classes\<close>

text \<open>
  A JavaScript string is a sequence of UTF-16 code units; the regular expressions of
  \<^verbatim>\<open>public/script.js\<close> carry no \<^verbatim>\<open>u\<close> flag, so they work on code units.
\<close>

type_synonym jschar = "16 word"
type_synonym jsstring = "jschar list"

definition js :: "string \<Rightarrow> jsstring" where
  "js s = map (\<lambda>c. of_nat (of_char c)) s"

text \<open>LineTerminator of ECMAScript: LF, CR, LS, PS.\<close>

definition isLineTerminator :: "jschar \<Rightarrow> bool" where
  "isLineTerminator c \<longleftrightarrow> c = 0x0A \<or> c = 0x0D \<or> c = 0x2028 \<or> c = 0x2029"

text \<open>The class \<^verbatim>\<open>\s\<close>, which is also what \<^verbatim>\<open>String.prototype.trim\<close> strips:
  WhiteSpace (TAB, VT, FF, ZWNBSP and the space separators) and LineTerminator.\<close>

definition isWhiteSpace :: "jschar \<Rightarrow> bool" where
  "isWhiteSpace c \<longleftrightarrow>
     c = 0x09 \<or> c = 0x0B \<or> c = 0x0C \<or> c = 0x20 \<or> c = 0xA0 \<or> c = 0x1680 \<or>
     (0x2000 \<le> c \<and> c \<le> 0x200A) \<or> c = 0x202F \<or> c = 0x205F \<or> c = 0x3000 \<or>
     c = 0xFEFF \<or> isLineTerminator c"

text \<open>The class \<^verbatim>\<open>\d\<close>.\<close>

definition isDigit :: "jschar \<Rightarrow> bool" where
  "isDigit c \<longleftrightarrow> 0x30 \<le> c \<and> c \<le> 0x39"

definition trim :: "jsstring \<Rightarrow> jsstring" where
  "trim s = rev (dropWhile isWhiteSpace (rev (dropWhile isWhiteSpace s)))"

section \<open>Regular expressions with backtracking\<close>

text \<open>
  The patterns used by the script, as syntax trees. \<open>Bol\<close> and \<open>Eol\<close> are \<^verbatim>\<open>^\<close> and
  \<^verbatim>\<open>$\<close> under the \<^verbatim>\<open>m\<close> flag (every anchored pattern of the script has it), \<open>Star\<close> is
  the greedy \<^verbatim>\<open>*\<close>, \<open>Lazy\<close> is \<^verbatim>\<open>*?\<close>, \<open>Grp n\<close> is the n-th capturing group and
  \<open>NotAhead\<close> is \<^verbatim>\<open>(?!...)\<close>.
\<close>

datatype regex =
    Chr jschar
  | Cls "jschar \<Rightarrow> bool"
  | Eps
  | Seq regex regex
  | Alt regex regex
  | Star regex
  | Lazy regex
  | Grp nat regex
  | Bol
  | Eol
  | NotAhead regex

text \<open>
  A matcher state: the code unit before the current position (\<open>None\<close> at the start of
  the input), the input that is left, and the captures so far.
\<close>

type_synonym caps = "nat \<Rightarrow> jsstring option"
type_synonym mstate = "jschar option \<times> jsstring \<times> caps"

fun advanced :: "jsstring \<Rightarrow> mstate \<Rightarrow> bool" where
  "advanced xs (p', xs', k') \<longleftrightarrow> length xs' < length xs"

fun capture :: "nat \<Rightarrow> jsstring \<Rightarrow> mstate \<Rightarrow> mstate" where
  "capture n xs (p', xs', k') = (p', xs', k'(n \<mapsto> take (length xs - length xs') xs))"

text \<open>
  \<open>ms r st\<close> lists every way \<open>r\<close> can match at \<open>st\<close>, in the order in which the
  backtracking matcher of ECMAScript tries them, so that the head of the list is the match
  the engine reports. An iteration of a star that consumes nothing is rejected, as the
  RepeatMatcher of the language definition does. No pattern of the script has a group
  inside a star or a backreference, so captures need not be reset between iterations.
\<close>

function ms :: "regex \<Rightarrow> mstate \<Rightarrow> mstate list" where
  "ms (Chr c) (p, xs, k) =
     (case xs of [] \<Rightarrow> [] | x # xs' \<Rightarrow> if x = c then [(Some x, xs', k)] else [])"
| "ms (Cls P) (p, xs, k) =
     (case xs of [] \<Rightarrow> [] | x # xs' \<Rightarrow> if P x then [(Some x, xs', k)] else [])"
| "ms Eps (p, xs, k) = [(p, xs, k)]"
| "ms (Seq a b) (p, xs, k) = concat (map (ms b) (ms a (p, xs, k)))"
| "ms (Alt a b) (p, xs, k) = ms a (p, xs, k) @ ms b (p, xs, k)"
| "ms (Star a) (p, xs, k) =
     concat (map (ms (Star a)) (filter (advanced xs) (ms a (p, xs, k)))) @ [(p, xs, k)]"
| "ms (Lazy a) (p, xs, k) =
     (p, xs, k) # concat (map (ms (Lazy a)) (filter (advanced xs) (ms a (p, xs, k))))"
| "ms (Grp n a) (p, xs, k) = map (capture n xs) (ms a (p, xs, k))"
| "ms Bol (p, xs, k) =
     (case p of None \<Rightarrow> [(p, xs, k)]
      | Some c \<Rightarrow> if isLineTerminator c then [(p, xs, k)] else [])"
| "ms Eol (p, xs, k) =
     (case xs of [] \<Rightarrow> [(p, xs, k)]
      | x # xs' \<Rightarrow> if isLineTerminator x then [(p, xs, k)] else [])"
| "ms (NotAhead a) (p, xs, k) = (if ms a (p, xs, k) = [] then [(p, xs, k)] else [])"
  by pat_completeness auto
termination
  by (relation "inv_image (less_than <*lex*> less_than) (\<lambda>(r, p, xs, k). (size r, length xs))")
     auto

text \<open>
  A replacement template: literal text and references \<^verbatim>\<open>$n\<close> to captures (the
  templates of the script use \<^verbatim>\<open>$1\<close> and \<^verbatim>\<open>$2\<close> and no other \<^verbatim>\<open>$\<close> form). A
  group that took no part in the match stands for the empty string.
\<close>

datatype piece = Lit jsstring | Cap nat

fun expand :: "caps \<Rightarrow> piece \<Rightarrow> jsstring" where
  "expand k (Lit s) = s"
| "expand k (Cap n) = (case k n of None \<Rightarrow> [] | Some s \<Rightarrow> s)"

definition GetSubstitution :: "piece list \<Rightarrow> caps \<Rightarrow> jsstring" where
  "GetSubstitution t k = concat (map (expand k) t)"

text \<open>
  \<^verbatim>\<open>String.prototype.replace\<close> with a global pattern: the input is scanned from the left;
  where the pattern matches, the template is emitted and the scan goes on behind the
  match (one code unit further when the match is empty); where it does not, the code
  unit is copied.
\<close>

function replace_from :: "regex \<Rightarrow> piece list \<Rightarrow> jschar option \<Rightarrow> jsstring \<Rightarrow> jsstring" where
  "replace_from r t p xs =
     (case ms r (p, xs, Map.empty) of
        [] \<Rightarrow> (case xs of [] \<Rightarrow> [] | x # xs' \<Rightarrow> x # replace_from r t (Some x) xs')
      | (p', ys, k) # _ \<Rightarrow>
          if length ys < length xs then GetSubstitution t k @ replace_from r t p' ys
          else GetSubstitution t k @
               (case xs of [] \<Rightarrow> [] | x # xs' \<Rightarrow> x # replace_from r t (Some x) xs'))"
  by pat_completeness auto
termination
  by (relation "measure (\<lambda>(r, t, p, xs). length xs)") auto

definition replace :: "regex \<Rightarrow> piece list \<Rightarrow> jsstring \<Rightarrow> jsstring" where
  "replace r t s = replace_from r t None s"

subsection \<open>Pattern notation\<close>

definition lit :: "string \<Rightarrow> regex" where
  "lit s = foldr (\<lambda>c r. Seq (Chr (of_nat (of_char c))) r) s Eps"

definition Plus :: "regex \<Rightarrow> regex" where
  "Plus a = Seq a (Star a)"

definition Opt :: "regex \<Rightarrow> regex" where
  "Opt a = Alt a Eps"

definition dot :: regex where
  "dot = Cls (\<lambda>c. \<not> isLineTerminator c)"

definition dotAll :: regex where
  "dotAll = Cls (\<lambda>c. True)"

definition space :: regex where
  "space = Cls isWhiteSpace"

fun seqs :: "regex list \<Rightarrow> regex" where
  "seqs [] = Eps"
| "seqs [r] = r"
| "seqs (r # rs) = Seq r (seqs rs)"

fun alts :: "regex list \<Rightarrow> regex" where
  "alts [] = NotAhead Eps"
| "alts [r] = r"
| "alts (r # rs) = Alt r (alts rs)"

section \<open>The formatter\<close>

text \<open>
  The patterns of \<^verbatim>\<open>formatMessageText\<close> (lines 53 to 86), in source order. All of
  them carry the flag \<^verbatim>\<open>g\<close>.
\<close>

text \<open>Lines 56 to 58: \<^verbatim>\<open>/^### (.*)$/gm\<close>, \<^verbatim>\<open>/^## (.*)$/gm\<close>, \<^verbatim>\<open>/^# (.*)$/gm\<close>.\<close>

definition re_heading :: "string \<Rightarrow> regex" where
  "re_heading marks = seqs [Bol, lit marks, Grp 1 (Star dot), Eol]"

text \<open>
  Lines 61 to 67: \<^verbatim>\<open>/\*\*(.*?)\*\*/g\<close>, \<^verbatim>\<open>/\*(.*?)\*/g\<close>, \<^verbatim>\<open>/`(.*?)`/g\<close> and
  \<^verbatim>\<open>/```([\s\S]*?)```/g\<close>.
\<close>

definition re_span :: "string \<Rightarrow> regex \<Rightarrow> regex" where
  "re_span mark inner = seqs [lit mark, Grp 1 (Lazy inner), lit mark]"

text \<open>Line 72: \<^verbatim>\<open>/^\s*[-*]\s+(.*)$/gm\<close>.\<close>

definition re_bullet :: regex where
  "re_bullet = seqs [Bol, Seq (Star space) (Cls (\<lambda>c. c = 0x2D \<or> c = 0x2A)), Plus space,
                     Grp 1 (Star dot), Eol]"

text \<open>Line 76: \<^verbatim>\<open>/^\s*\d+\.\s+(.*)$/gm\<close>.\<close>

definition re_numbered :: regex where
  "re_numbered = seqs [Bol, Seq (Star space) (Seq (Plus (Cls isDigit)) (Chr 0x2E)), Plus space,
                       Grp 1 (Star dot), Eol]"

text \<open>Lines 73 and 77: \<^verbatim>\<open>/(<li>.*<\/li>)/gms\<close>, where the dot matches every code unit.\<close>

definition re_items :: regex where
  "re_items = Grp 1 (seqs [lit ''<li>'', Star dotAll, lit ''</li>''])"

text \<open>Line 80: \<^verbatim>\<open>/\[([^\]]+)\]\((https?:\/\/[^\s)]+)\)/g\<close>; first the second group.\<close>

definition re_url :: regex where
  "re_url = seqs [lit ''http'', Opt (Chr 0x73), lit ''://'',
                  Plus (Cls (\<lambda>c. \<not> (isWhiteSpace c \<or> c = 0x29)))]"

definition re_link :: regex where
  "re_link = seqs [Chr 0x5B, Grp 1 (Plus (Cls (\<lambda>c. c \<noteq> 0x5D))), Chr 0x5D, Chr 0x28,
                   Grp 2 re_url, Chr 0x29]"

text \<open>
  Line 83: \<^verbatim>\<open>/^(?!<ul>|<ol>|<li>|<pre>|<code>|<strong>|<em>|<a>)(.+)$/gm\<close>; first the
  alternatives of the lookahead.
\<close>

definition re_block_start :: regex where
  "re_block_start =
     alts [lit ''<ul>'', lit ''<ol>'', lit ''<li>'', lit ''<pre>'',
           lit ''<code>'', lit ''<strong>'', lit ''<em>'', lit ''<a>'']"

definition re_paragraph :: regex where
  "re_paragraph = seqs [Bol, NotAhead re_block_start, Grp 1 (Plus dot), Eol]"

text \<open>The templates: \<^verbatim>\<open><h3>$1</h3>\<close> and the like, and the anchor of line 80.\<close>

definition wrap :: "string \<Rightarrow> string \<Rightarrow> piece list" where
  "wrap opening closing = [Lit (js opening), Cap 1, Lit (js closing)]"

definition anchor :: "piece list" where
  "anchor = [Lit (js ''<a href=\"''), Cap 2,
             Lit (js ''\" target=\"_blank\" rel=\"noopener noreferrer\">''), Cap 1,
             Lit (js ''</a>'')]"

text \<open>
  Lines 50 to 90. Lines 53, 69 and 86 use the patterns \<^verbatim>\<open>/&/g\<close>, \<^verbatim>\<open>/</g\<close>, \<^verbatim>\<open>/>/g\<close>,
  \<^verbatim>\<open>/\n/g\<close> and \<^verbatim>\<open>/\s+/g\<close>.
\<close>

definition formatMessageText :: "jsstring \<Rightarrow> jsstring" where
  "formatMessageText text0 =
    (if text0 = [] then [] else
     let text = replace (Chr 0x26) [Lit (js ''&amp;'')] text0;
         text = replace (Chr 0x3C) [Lit (js ''&lt;'')] text;
         text = replace (Chr 0x3E) [Lit (js ''&gt;'')] text;
         text = replace (re_heading ''### '') (wrap ''<h3>'' ''</h3>'') text;
         text = replace (re_heading ''## '') (wrap ''<h2>'' ''</h2>'') text;
         text = replace (re_heading ''# '') (wrap ''<h1>'' ''</h1>'') text;
         text = replace (re_span ''**'' dot) (wrap ''<strong>'' ''</strong>'') text;
         text = replace (re_span ''*'' dot) (wrap ''<em>'' ''</em>'') text;
         text = replace (re_span ''`'' dot) (wrap ''<code>'' ''</code>'') text;
         text = replace (re_span ''```'' (Cls (\<lambda>c. isWhiteSpace c \<or> \<not> isWhiteSpace c)))
                  (wrap ''<pre><code>'' ''</code></pre>'') text;
         text = replace (Chr 0x0A) [Lit (js ''<br>'')] text;
         text = replace re_bullet (wrap ''<li>'' ''</li>'') text;
         text = replace re_items (wrap ''<ul>'' ''</ul>'') text;
         text = replace re_numbered (wrap ''<li>'' ''</li>'') text;
         text = replace re_items (wrap ''<ol>'' ''</ol>'') text;
         text = replace re_link anchor text;
         text = replace re_paragraph (wrap ''<p>'' ''</p>'') text;
         formatted = replace (Plus space) [Lit (js '' '')] text;
         formatted = trim formatted
     in formatted)"

section \<open>Values that JSON.parse returns\<close>

text \<open>
  A Number is kept as the bits of its IEEE 754 double, so that zero, negative zero and
  NaN can be told apart without floating-point arithmetic.
\<close>

datatype json =
    JNull
  | JBool bool
  | JNumber "64 word"
  | JString jsstring
  | JArray "json list"
  | JObject "(jsstring \<times> json) list"

text \<open>A JavaScript value as the handler sees it: \<open>None\<close> is \<^verbatim>\<open>undefined\<close>.\<close>

type_synonym jsvalue = "json option"

datatype exn = TypeError | SyntaxError | DOMException | Error jsvalue

definition number_truthy :: "64 word \<Rightarrow> bool" where
  "number_truthy w \<longleftrightarrow>
     and w 0x7FFFFFFFFFFFFFFF \<noteq> 0 \<and>
     \<not> (and (drop_bit 52 w) 0x7FF = 0x7FF \<and> and w 0xFFFFFFFFFFFFF \<noteq> 0)"

fun ToBoolean :: "jsvalue \<Rightarrow> bool" where
  "ToBoolean None = False"
| "ToBoolean (Some JNull) = False"
| "ToBoolean (Some (JBool b)) = b"
| "ToBoolean (Some (JNumber w)) = number_truthy w"
| "ToBoolean (Some (JString s)) = (s \<noteq> [])"
| "ToBoolean (Some (JArray vs)) = True"
| "ToBoolean (Some (JObject kvs)) = True"

text \<open>
  Reading a property \<^verbatim>\<open>v.key\<close> for a key that no built-in prototype defines and that
  is no index and not \<^verbatim>\<open>length\<close>: the three keys the handler reads
  (\<^verbatim>\<open>result\<close>, \<^verbatim>\<open>error\<close>, \<^verbatim>\<open>message\<close>) are such keys. Reading from
  \<^verbatim>\<open>null\<close> throws; of a key that the JSON text repeats, the last value counts.
\<close>

fun Get :: "json \<Rightarrow> jsstring \<Rightarrow> exn + jsvalue" where
  "Get JNull key = Inl TypeError"
| "Get (JObject kvs) key = Inr (map_of (rev kvs) key)"
| "Get (JBool b) key = Inr None"
| "Get (JNumber w) key = Inr None"
| "Get (JString s) key = Inr None"
| "Get (JArray vs) key = Inr None"

text \<open>The operator \<^verbatim>\<open>||\<close>.\<close>

definition or_else :: "jsvalue \<Rightarrow> jsvalue \<Rightarrow> jsvalue" where
  "or_else a b = (if ToBoolean a then a else b)"

text \<open>
  \<^verbatim>\<open>formatMessageText\<close> on a value of any type: a falsy value gives the empty string
  (line 51), and a truthy value that is no string has no \<^verbatim>\<open>replace\<close> method, so
  line 53 throws a TypeError.
\<close>

definition formatMessageText_value :: "jsvalue \<Rightarrow> exn + jsstring" where
  "formatMessageText_value v =
     (if \<not> ToBoolean v then Inr []
      else case v of Some (JString s) \<Rightarrow> Inr (formatMessageText s) | _ \<Rightarrow> Inl TypeError)"

section \<open>The page\<close>

datatype sender = User | Bot

fun sender_class :: "sender \<Rightarrow> jsstring" where
  "sender_class User = js ''user''"
| "sender_class Bot = js ''bot''"

datatype children = TextContent jsstring | InnerHTML jsstring

record element =
  classList :: "jsstring list"
  dataset_temporary :: "jsstring option"
  children :: children

definition classList_add :: "jsstring \<Rightarrow> jsstring list \<Rightarrow> jsstring list" where
  "classList_add c cs = (if c \<in> set cs then cs else cs @ [c])"

definition classList_remove :: "jsstring \<Rightarrow> jsstring list \<Rightarrow> jsstring list" where
  "classList_remove c cs = filter (\<lambda>x. x \<noteq> c) cs"

text \<open>
  The part of the document the script touches: the children of the chat box (an element
  is referred to by its position, since none is ever removed), the text input, the send
  button and the developer console.
\<close>

record page =
  chatBox :: "element list"
  chatBox_atBottom :: bool
  userInput_value :: jsstring
  userInput_disabled :: bool
  userInput_focused :: bool
  sendButton_disabled :: bool
  console :: "(jsstring \<times> exn) list"

definition addMessage :: "sender \<Rightarrow> jsstring \<Rightarrow> bool \<Rightarrow> page \<Rightarrow> nat \<times> page" where
  "addMessage sender message isTemporary p =
     (let messageElement =
            \<lparr>classList = classList_add (sender_class sender) (classList_add (js ''chat-message'') []),
             dataset_temporary = None, children = TextContent []\<rparr>;
          messageElement =
            (if sender = Bot then messageElement\<lparr>children := InnerHTML (formatMessageText message)\<rparr>
             else messageElement\<lparr>children := TextContent message\<rparr>);
          messageElement =
            (if isTemporary
             then messageElement\<lparr>dataset_temporary := Some (js ''true''),
                    classList := classList_add (js ''thinking'') (classList messageElement)\<rparr>
             else messageElement)
      in (length (chatBox p), p\<lparr>chatBox := chatBox p @ [messageElement], chatBox_atBottom := True\<rparr>))"

text \<open>Lines 38 to 44: what the replacement does to the placeholder element.\<close>

definition settle_element :: "jsstring \<Rightarrow> element \<Rightarrow> element" where
  "settle_element html el =
     (let el = el\<lparr>children := InnerHTML html\<rparr>;
          el = el\<lparr>dataset_temporary := None\<rparr>;
          el = el\<lparr>classList := classList_remove (js ''thinking'') (classList el)\<rparr>
      in if js ''bot'' \<notin> set (classList el)
         then el\<lparr>classList := classList_add (js ''bot'') (classList el)\<rparr> else el)"

text \<open>
  The result is the exception thrown, if any, and the page. The formatter runs before the
  element is assigned to, so a throw leaves the page as it was. An element reference is
  a position in the chat box; the test \<^verbatim>\<open>tempElement &&\<close> of line 37 is the test that
  the position exists.
\<close>

definition replaceTemporaryMessage :: "nat \<Rightarrow> jsvalue \<Rightarrow> page \<Rightarrow> exn option \<times> page" where
  "replaceTemporaryMessage tempElement newMessage p =
     (if tempElement < length (chatBox p) \<and>
         dataset_temporary (chatBox p ! tempElement) = Some (js ''true'')
      then
        (case formatMessageText_value newMessage of
           Inl e \<Rightarrow> (Some e, p)
         | Inr html \<Rightarrow>
             (None, p\<lparr>chatBox := (chatBox p)[tempElement := settle_element html (chatBox p ! tempElement)],
                      chatBox_atBottom := True\<rparr>))
      else (None, p))"

section \<open>The request\<close>

record chat_message =
  role :: jsstring
  content :: jsstring

record chat_payload =
  messages :: "chat_message list"

record request =
  req_url :: jsstring
  req_method :: jsstring
  req_headers :: "(jsstring \<times> jsstring) list"
  req_body :: jsstring

text \<open>JSON.stringify on the payload: QuoteJSONString for the strings, no white space.\<close>

definition hex_digit :: "nat \<Rightarrow> jschar" where
  "hex_digit n = (if n < 10 then of_nat (48 + n) else of_nat (87 + n))"

definition UnicodeEscape :: "jschar \<Rightarrow> jsstring" where
  "UnicodeEscape c =
     [0x5C, 0x75] @ [hex_digit (unat c div 4096 mod 16), hex_digit (unat c div 256 mod 16),
                   hex_digit (unat c div 16 mod 16), hex_digit (unat c mod 16)]"

definition isLeadingSurrogate :: "jschar \<Rightarrow> bool" where
  "isLeadingSurrogate c \<longleftrightarrow> 0xD800 \<le> c \<and> c \<le> 0xDBFF"

definition isTrailingSurrogate :: "jschar \<Rightarrow> bool" where
  "isTrailingSurrogate c \<longleftrightarrow> 0xDC00 \<le> c \<and> c \<le> 0xDFFF"

definition quote_unit :: "jschar \<Rightarrow> jsstring" where
  "quote_unit c =
     (if c = 0x08 then [0x5C, 0x62] else if c = 0x09 then [0x5C, 0x74]
      else if c = 0x0A then [0x5C, 0x6E] else if c = 0x0C then [0x5C, 0x66]
      else if c = 0x0D then [0x5C, 0x72] else if c = 0x22 then [0x5C, 0x22]
      else if c = 0x5C then [0x5C, 0x5C]
      else if c < 0x20 \<or> isLeadingSurrogate c \<or> isTrailingSurrogate c then UnicodeEscape c
      else [c])"

fun quote_units :: "jsstring \<Rightarrow> jsstring" where
  "quote_units [] = []"
| "quote_units [c] = quote_unit c"
| "quote_units (c # d # ds) =
     (if isLeadingSurrogate c \<and> isTrailingSurrogate d then c # d # quote_units ds
      else quote_unit c @ quote_units (d # ds))"

definition QuoteJSONString :: "jsstring \<Rightarrow> jsstring" where
  "QuoteJSONString s = js ''\"'' @ quote_units s @ js ''\"''"

fun join :: "jsstring \<Rightarrow> jsstring list \<Rightarrow> jsstring" where
  "join sep [] = []"
| "join sep [x] = x"
| "join sep (x # xs) = x @ sep @ join sep xs"

definition stringify_message :: "chat_message \<Rightarrow> jsstring" where
  "stringify_message m =
     js ''{\"role\":'' @ QuoteJSONString (role m) @ js '',\"content\":'' @
     QuoteJSONString (content m) @ js ''}''"

definition JSON_stringify :: "chat_payload \<Rightarrow> jsstring" where
  "JSON_stringify payload =
     js ''{\"messages\":['' @ join (js '','') (map stringify_message (messages payload)) @ js '']}''"

section \<open>The submit handler\<close>

text \<open>
  The handler up to its \<^verbatim>\<open>await\<close> (lines 92 to 123). It returns the page and, when a
  request was sent, the placeholder element and the request. The call of
  \<^verbatim>\<open>event.preventDefault\<close> only keeps the browser from submitting the form itself and
  leaves the page as it is.
\<close>

definition submit_handler :: "page \<Rightarrow> page \<times> (nat \<times> request) option" where
  "submit_handler p =
     (let userMessage = trim (userInput_value p) in
      if userMessage = [] then (p, None)
      else
        let (userElement, p) = addMessage User userMessage False p;
            p = p\<lparr>userInput_value := []\<rparr>;
            p = p\<lparr>userInput_disabled := True\<rparr>;
            p = p\<lparr>sendButton_disabled := True\<rparr>;
            (thinkingMessageElement, p) = addMessage Bot (js ''Thinking...'') True p;
            request =
              \<lparr>req_url = js ''/api/chat'', req_method = js ''POST'',
               req_headers = [(js ''Content-Type'', js ''application/json'')],
               req_body = JSON_stringify
                 \<lparr>messages = [\<lparr>role = js ''user'', content = userMessage\<rparr>]\<rparr>\<rparr>
        in (p, Some (thinkingMessageElement, request)))"

text \<open>
  What \<^verbatim>\<open>fetch\<close> settles to: a rejection, or a response with its status and with what
  \<^verbatim>\<open>response.json()\<close> settles to.
\<close>

record response =
  status :: nat
  json_result :: "exn + json"

datatype fetch_result = Rejected exn | Resolved response

definition ok :: "response \<Rightarrow> bool" where
  "ok r \<longleftrightarrow> 200 \<le> status r \<and> status r \<le> 299"

function decimal :: "nat \<Rightarrow> jsstring" where
  "decimal n = (if n < 10 then [of_nat (48 + n)] else decimal (n div 10) @ [of_nat (48 + n mod 10)])"
  by pat_completeness auto
termination
  by (relation "measure id") auto

text \<open>Line 130: \<^verbatim>\<open>errorData.error?.message || errorData.message || errorMessage\<close>.\<close>

definition error_detail :: "json \<Rightarrow> jsvalue \<Rightarrow> exn + jsvalue" where
  "error_detail errorData errorMessage =
     (case Get errorData (js ''error'') of
        Inl e \<Rightarrow> Inl e
      | Inr err \<Rightarrow>
          (case (case err of None \<Rightarrow> Inr None | Some JNull \<Rightarrow> Inr None
                 | Some v \<Rightarrow> Get v (js ''message'')) of
             Inl e \<Rightarrow> Inl e
           | Inr m1 \<Rightarrow>
               (case Get errorData (js ''message'') of
                  Inl e \<Rightarrow> Inl e
                | Inr m2 \<Rightarrow> Inr (or_else (or_else m1 m2) errorMessage))))"

definition console_error :: "jsstring \<Rightarrow> exn \<Rightarrow> page \<Rightarrow> page" where
  "console_error label e p = p\<lparr>console := console p @ [(label, e)]\<rparr>"

text \<open>The body of \<^verbatim>\<open>try\<close> behind the \<^verbatim>\<open>await\<close> (lines 125 to 146).\<close>

definition try_block :: "fetch_result \<Rightarrow> nat \<Rightarrow> page \<Rightarrow> exn option \<times> page" where
  "try_block settled thinkingMessageElement p =
     (case settled of
        Rejected e \<Rightarrow> (Some e, p)
      | Resolved response \<Rightarrow>
          if \<not> ok response then
            (let errorMessage = Some (JString (js ''HTTP error! status: '' @ decimal (status response)))
             in case json_result response of
                  Inl jsonError \<Rightarrow>
                    (Some (Error errorMessage),
                     console_error (js ''Failed to parse error response JSON:'') jsonError p)
                | Inr errorData \<Rightarrow>
                    (case error_detail errorData errorMessage of
                       Inl jsonError \<Rightarrow>
                         (Some (Error errorMessage),
                          console_error (js ''Failed to parse error response JSON:'') jsonError p)
                     | Inr detail \<Rightarrow> (Some (Error detail), p)))
          else
            (case json_result response of
               Inl e \<Rightarrow> (Some e, p)
             | Inr data \<Rightarrow>
                 (case (if ToBoolean (Some data) then Get data (js ''result'') else Inr (Some data)) of
                    Inl e \<Rightarrow> (Some e, p)
                  | Inr result \<Rightarrow>
                      if ToBoolean result
                      then replaceTemporaryMessage thinkingMessageElement result p
                      else replaceTemporaryMessage thinkingMessageElement
                             (Some (JString (js ''Sorry, no response received.''))) p)))"

definition focus :: "page \<Rightarrow> page" where
  "focus p = (if userInput_disabled p then p else p\<lparr>userInput_focused := True\<rparr>)"

text \<open>
  The handler from the moment the request settles: \<^verbatim>\<open>try\<close>, \<^verbatim>\<open>catch\<close> and
  \<^verbatim>\<open>finally\<close>. The first component is an exception that leaves the handler.
\<close>

definition on_settled :: "fetch_result \<Rightarrow> nat \<Rightarrow> page \<Rightarrow> exn option \<times> page" where
  "on_settled settled thinkingMessageElement p =
     (let (thrown, p) = try_block settled thinkingMessageElement p;
          (thrown, p) =
            (case thrown of
               None \<Rightarrow> (None, p)
             | Some error \<Rightarrow>
                 replaceTemporaryMessage thinkingMessageElement
                   (Some (JString (js ''Failed to get response from server.'')))
                   (console_error (js ''Error sending message to API:'') error p));
          p = p\<lparr>userInput_disabled := False\<rparr>;
          p = p\<lparr>sendButton_disabled := False\<rparr>;
          p = focus p
      in (thrown, p))"

section \<open>The controller as a transition system\<close>

text \<open>
  A state is the page together with the handlers that wait for their request to settle.
  The browser delivers no submit event through a disabled send button, and no typing
  through a disabled input; the handler itself does not look at either flag.
\<close>

record system =
  doc :: page
  waiting :: "(nat \<times> request) list"

datatype event = Typed jsstring | Submit | Settled nat fetch_result

definition after_submit :: "system \<Rightarrow> system" where
  "after_submit s =
     (let (p, sent) = submit_handler (doc s)
      in \<lparr>doc = p, waiting = waiting s @ (case sent of None \<Rightarrow> [] | Some w \<Rightarrow> [w])\<rparr>)"

definition after_settled :: "nat \<Rightarrow> fetch_result \<Rightarrow> system \<Rightarrow> system" where
  "after_settled i settled s =
     \<lparr>doc = snd (on_settled settled (fst (waiting s ! i)) (doc s)),
      waiting = take i (waiting s) @ drop (Suc i) (waiting s)\<rparr>"

inductive step :: "system \<Rightarrow> event \<Rightarrow> system \<Rightarrow> bool" where
  step_typed: "\<not> userInput_disabled (doc s) \<Longrightarrow>
            step s (Typed v) (s\<lparr>doc := (doc s)\<lparr>userInput_value := v\<rparr>\<rparr>)"
| step_submit: "\<not> sendButton_disabled (doc s) \<Longrightarrow> step s Submit (after_submit s)"
| step_settled: "i < length (waiting s) \<Longrightarrow> step s (Settled i settled) (after_settled i settled s)"

definition pending :: "element \<Rightarrow> bool" where
  "pending e \<longleftrightarrow> dataset_temporary e = Some (js ''true'')"

text \<open>
  The markup of the page is not part of the script. A page starts with both controls
  enabled, no placeholder in the chat box and no request under way.
\<close>

definition initial :: "system \<Rightarrow> bool" where
  "initial s \<longleftrightarrow>
     waiting s = [] \<and> \<not> userInput_disabled (doc s) \<and> \<not> sendButton_disabled (doc s) \<and>
     list_all (\<lambda>e. \<not> pending e) (chatBox (doc s))"

inductive reachable :: "system \<Rightarrow> bool" where
  reach_initial: "initial s \<Longrightarrow> reachable s"
| reach_step: "reachable s \<Longrightarrow> step s e s' \<Longrightarrow> reachable s'"

definition idle :: "system \<Rightarrow> bool" where
  "idle s \<longleftrightarrow> waiting s = []"

definition awaitingResponse :: "system \<Rightarrow> bool" where
  "awaitingResponse s \<longleftrightarrow> waiting s \<noteq> []"

section \<open>Notions used in the statements\<close>


text \<open>An object that has the field, whatever its value.\<close>

definition has_field :: "json \<Rightarrow> jsstring \<Rightarrow> bool" where
  "has_field v key = (case v of JObject kvs \<Rightarrow> key \<in> set (map fst kvs) | _ \<Rightarrow> False)"

text \<open>A page with one placeholder, as the handler leaves it at its \<^verbatim>\<open>await\<close>.\<close>

definition page_waiting :: page where
  "page_waiting =
     \<lparr>chatBox = [\<lparr>classList = [js ''chat-message'', js ''user''], dataset_temporary = None,
                   children = TextContent (js ''hello'')\<rparr>,
                 \<lparr>classList = [js ''chat-message'', js ''bot'', js ''thinking''],
                   dataset_temporary = Some (js ''true''),
                   children = InnerHTML (js ''<p>Thinking...</p>'')\<rparr>],
      chatBox_atBottom = True, userInput_value = [], userInput_disabled = True,
      userInput_focused = False, sendButton_disabled = True, console = []\<rparr>"

text \<open>A fresh page in which the user has typed a greeting.\<close>

definition page_idle :: page where
  "page_idle =
     \<lparr>chatBox = [], chatBox_atBottom = False, userInput_value = js '' hello '',
      userInput_disabled = False, userInput_focused = True, sendButton_disabled = False,
      console = []\<rparr>"

text \<open>
  The invariant of the controller: the controls are disabled exactly while a handler
  waits, at most one handler waits, and the placeholders of the chat box are exactly the
  elements the waiting handlers hold.
\<close>

definition inv :: "system \<Rightarrow> bool" where
  "inv s \<longleftrightarrow>
     (userInput_disabled (doc s) \<longleftrightarrow> waiting s \<noteq> []) \<and>
     (sendButton_disabled (doc s) \<longleftrightarrow> waiting s \<noteq> []) \<and>
     length (waiting s) \<le> 1 \<and>
     (\<forall>w \<in> set (waiting s). fst w < length (chatBox (doc s)) \<and> pending (chatBox (doc s) ! fst w)) \<and>
     (\<forall>j < length (chatBox (doc s)). pending (chatBox (doc s) ! j) \<longrightarrow> (\<exists>w \<in> set (waiting s). fst w = j))"

section \<open>Notions for the safety of the formatter's output\<close>

text \<open>
  The code unit before the position behind a match \<open>m\<close> that started with \<open>p\<close> before it.
\<close>

fun prev :: "jschar option \<Rightarrow> jsstring \<Rightarrow> jschar option" where
  "prev p m = (if m = [] then p else Some (last m))"

text \<open>
  The markup the formatter writes: three entities, the tags of lines 56 to 83, and the two
  pieces of the anchor tag of line 80, between which the URL stands.
\<close>

definition entities :: "jsstring list" where
  "entities = map js [''&amp;'', ''&lt;'', ''&gt;'']"

definition block_tags :: "jsstring list" where
  "block_tags = map js
     [''<h3>'', ''</h3>'', ''<h2>'', ''</h2>'', ''<h1>'', ''</h1>'', ''<strong>'', ''</strong>'',
      ''<em>'', ''</em>'', ''<code>'', ''</code>'', ''<pre>'', ''</pre>'', ''<br>'', ''<li>'',
      ''</li>'', ''<ul>'', ''</ul>'', ''<ol>'', ''</ol>'', ''<p>'', ''</p>'', ''</a>'']"

definition anchor_tags :: "jsstring list" where
  "anchor_tags = map js [''<a href=\"'', ''\" target=\"_blank\" rel=\"noopener noreferrer\">'']"

definition generated_tags :: "jsstring list" where
  "generated_tags = block_tags @ anchor_tags"

text \<open>
  \<open>occurs_at t s i\<close>: the string \<open>t\<close> stands in \<open>s\<close> from position \<open>i\<close> on;
  \<open>ends_at t s i\<close>: it stands in \<open>s\<close> with its last code unit at position \<open>i\<close>.
\<close>

definition occurs_at :: "jsstring \<Rightarrow> jsstring \<Rightarrow> nat \<Rightarrow> bool" where
  "occurs_at t s i \<longleftrightarrow> take (length t) (drop i s) = t"

definition ends_at :: "jsstring \<Rightarrow> jsstring \<Rightarrow> nat \<Rightarrow> bool" where
  "ends_at t s i \<longleftrightarrow> length t \<le> Suc i \<and> occurs_at t s (Suc i - length t)"

text \<open>
  The invariant of the pipeline: the text is a sequence of tokens (entities and generated
  markup) and of code units other than \<^verbatim>\<open>&\<close>, \<^verbatim>\<open><\<close> and \<^verbatim>\<open>>\<close>. Up to the link stage
  the tokens are \<open>tokens1\<close>; from there on the anchor pieces join them.
\<close>

definition plain :: "jschar \<Rightarrow> bool" where
  "plain c \<longleftrightarrow> c \<noteq> 0x26 \<and> c \<noteq> 0x3C \<and> c \<noteq> 0x3E"

inductive safe :: "jsstring list \<Rightarrow> jsstring \<Rightarrow> bool" for T where
  safe_nil: "safe T []"
| safe_chr: "plain c \<Longrightarrow> safe T s \<Longrightarrow> safe T (c # s)"
| safe_tok: "t \<in> set T \<Longrightarrow> safe T s \<Longrightarrow> safe T (t @ s)"

definition tokens1 :: "jsstring list" where
  "tokens1 = entities @ block_tags"

definition tokens2 :: "jsstring list" where
  "tokens2 = tokens1 @ anchor_tags"

text \<open>The code units that occur in the tokens.\<close>

definition unit1 :: "jschar \<Rightarrow> bool" where
  "unit1 c \<longleftrightarrow> c \<in> set (js ''&<>/;abcdeghilmnoprstu123'')"

definition unit2 :: "jschar \<Rightarrow> bool" where
  "unit2 c \<longleftrightarrow> c \<in> set (js ''&<>/;abcdeghilmnoprstu123 =\"_fk'')"

text \<open>
  What a stage has to do for the invariant: where it does not match at the start of a
  token it copies the token (\<open>copies\<close>), and a match at a position where the rest of the
  text is safe ends at such a position, is not empty and is replaced by safe text
  (\<open>sound\<close>). \<open>starts r S\<close>: a match of \<open>r\<close> starts only where \<open>S\<close> holds of the code
  unit before and the code unit at the position; \<open>inner_free S t\<close>: no position inside
  the token \<open>t\<close> is such a position.
\<close>

definition copies :: "regex \<Rightarrow> piece list \<Rightarrow> jsstring list \<Rightarrow> bool" where
  "copies r tm T \<longleftrightarrow>
     (\<forall>t \<in> set T. \<forall>p rest. ms r (p, t @ rest, Map.empty) = [] \<longrightarrow>
        replace_from r tm p (t @ rest) = t @ replace_from r tm (prev p t) rest)"

definition sound :: "regex \<Rightarrow> piece list \<Rightarrow> jsstring list \<Rightarrow> jsstring list \<Rightarrow> bool" where
  "sound r tm T T' \<longleftrightarrow>
     (\<forall>p xs p' ys k. safe T xs \<and> (p', ys, k) \<in> set (ms r (p, xs, Map.empty)) \<longrightarrow>
        length ys < length xs \<and> safe T' (GetSubstitution tm k) \<and> safe T ys)"

definition starts :: "regex \<Rightarrow> (jschar option \<Rightarrow> jschar \<Rightarrow> bool) \<Rightarrow> bool" where
  "starts r S \<longleftrightarrow> (\<forall>p x xs q. q \<in> set (ms r (p, x # xs, Map.empty)) \<longrightarrow> S p x)"

fun inner_free :: "(jschar option \<Rightarrow> jschar \<Rightarrow> bool) \<Rightarrow> jsstring \<Rightarrow> bool" where
  "inner_free S (a # b # t) \<longleftrightarrow> \<not> S (Some a) b \<and> inner_free S (b # t)"
| "inner_free S t \<longleftrightarrow> True"

text \<open>The URLs that the link pattern accepts.\<close>

definition url_ok :: "jsstring \<Rightarrow> bool" where
  "url_ok u \<longleftrightarrow>
     (\<exists>v. (u = js ''http://'' @ v \<or> u = js ''https://'' @ v) \<and> v \<noteq> [] \<and>
          (\<forall>c \<in> set v. \<not> (isWhiteSpace c \<or> c = 0x29)))"

section \<open>Notions for links\<close>

text \<open>
  The text \<^verbatim>\<open>[label](url)\<close> and the anchor element that line 80 writes for it.
\<close>

definition span :: "jsstring \<Rightarrow> jsstring \<Rightarrow> jsstring" where
  "span label url = 0x5B # label @ 0x5D # 0x28 # url @ [0x29]"

definition anchor_for :: "jsstring \<Rightarrow> jsstring \<Rightarrow> jsstring" where
  "anchor_for label url =
     js ''<a href=\"'' @ url @ js ''\" target=\"_blank\" rel=\"noopener noreferrer\">'' @ label @
     js ''</a>''"

text \<open>
  What becomes of a label and of a url on their way through the formatter: line 53 writes
  \<^verbatim>\<open>&\<close>, \<^verbatim>\<open><\<close> and \<^verbatim>\<open>>\<close> as entities, and line 86 turns every run of white space
  into one space.
\<close>

definition escaped :: "jsstring \<Rightarrow> jsstring" where
  "escaped s = concat (map (\<lambda>c. if c = 0x26 then js ''&amp;'' else if c = 0x3C then js ''&lt;''
                              else if c = 0x3E then js ''&gt;'' else [c]) s)"

fun collapsed :: "jsstring \<Rightarrow> jsstring" where
  "collapsed [] = []"
| "collapsed [x] = [if isWhiteSpace x then 0x20 else x]"
| "collapsed (x # y # s) =
     (if isWhiteSpace x then (if isWhiteSpace y then collapsed (y # s) else 0x20 # collapsed (y # s))
      else x # collapsed (y # s))"

text \<open>
  The labels and urls that the statement about links is made for. A label has no
  \<^verbatim>\<open>]\<close> (it would end the label), no line terminator and no \<^verbatim>\<open>*\<close> or backtick (the
  stages for lines and for emphasis react to them, together with the text around the
  span). A url has no white space and no \<^verbatim>\<open>)\<close> (they would end the url), no \<^verbatim>\<open>*\<close>
  or backtick, and no double quote, which the formatter does not escape and which would
  end the \<^verbatim>\<open>href\<close> attribute.
\<close>

definition label_unit :: "jschar \<Rightarrow> bool" where
  "label_unit c \<longleftrightarrow> \<not> isLineTerminator c \<and> c \<noteq> 0x5D \<and> c \<noteq> 0x2A \<and> c \<noteq> 0x60"

definition url_unit :: "jschar \<Rightarrow> bool" where
  "url_unit c \<longleftrightarrow> \<not> isWhiteSpace c \<and> c \<noteq> 0x29 \<and> c \<noteq> 0x2A \<and> c \<noteq> 0x60 \<and> c \<noteq> 0x22"

text \<open>
  The text before a span leaves no earlier span open: every \<^verbatim>\<open>[\<close> is followed by a
  \<^verbatim>\<open>]\<close>, and behind a \<^verbatim>\<open>[\<close> every \<^verbatim>\<open>(\<close> is followed by a \<^verbatim>\<open>)\<close>. A text without
  \<^verbatim>\<open>[\<close> is of this kind.
\<close>

fun parens_closed :: "jsstring \<Rightarrow> bool" where
  "parens_closed [] \<longleftrightarrow> True"
| "parens_closed (c # s) \<longleftrightarrow> (c = 0x28 \<longrightarrow> 0x29 \<in> set s) \<and> parens_closed s"

fun spans_closed :: "jsstring \<Rightarrow> bool" where
  "spans_closed [] \<longleftrightarrow> True"
| "spans_closed (c # s) \<longleftrightarrow> (c = 0x5B \<longrightarrow> 0x5D \<in> set s \<and> parens_closed s) \<and> spans_closed s"

text \<open>
  Notions of the proof. \<open>protects r tm B\<close>: a match of \<open>r\<close> in a text around the block
  \<open>B\<close> ends before the block, or the block lies in a part of the match that the template
  \<open>tm\<close> copies; and no match starts inside the block. The code units
  \<^verbatim>\<open>[ ] ( )\<close> before the block are kept, in their order. \<open>around B f t\<close>: the text \<open>t\<close>
  holds the block, with the brackets \<open>f\<close> before it. \<open>inert B\<close>: the block starts with
  \<^verbatim>\<open>[\<close> and holds no code unit that a stage before the link stage looks for.
\<close>

definition bracket :: "jschar \<Rightarrow> bool" where
  "bracket c \<longleftrightarrow> c = 0x5B \<or> c = 0x5D \<or> c = 0x28 \<or> c = 0x29"

definition protects :: "regex \<Rightarrow> piece list \<Rightarrow> jsstring \<Rightarrow> bool" where
  "protects r tm B \<longleftrightarrow>
     (\<forall>p a b p' ys k. (p', ys, k) \<in> set (ms r (p, a @ B @ b, Map.empty)) \<longrightarrow>
        (\<exists>d e. a = d @ e \<and> d \<noteq> [] \<and> ys = e @ B @ b \<and>
               filter bracket (GetSubstitution tm k) = filter bracket d) \<or>
        (\<exists>x y z. GetSubstitution tm k = x @ B @ y \<and> b = z @ ys \<and>
               filter bracket x = filter bracket a)) \<and>
     (\<forall>B1 B2 b. B = B1 @ B2 \<and> B1 \<noteq> [] \<and> B2 \<noteq> [] \<longrightarrow>
        ms r (Some (last B1), B2 @ b, Map.empty) = [])"

definition around :: "jsstring \<Rightarrow> jsstring \<Rightarrow> jsstring \<Rightarrow> bool" where
  "around B f t \<longleftrightarrow> (\<exists>a b. t = a @ B @ b \<and> filter bracket a = f)"

definition inert :: "jsstring \<Rightarrow> bool" where
  "inert B \<longleftrightarrow> B \<noteq> [] \<and> hd B = 0x5B \<and>
     (\<forall>c \<in> set B. \<not> isLineTerminator c \<and> c \<noteq> 0x2A \<and> c \<noteq> 0x60 \<and> c \<noteq> 0x3C)"


section \<open>The lifecycle of a request\<close>


lemma fmt_no_response:
  "formatMessageText (js ''Sorry, no response received.'') = js ''<p>Sorry, no response received.</p>''"
  by code_simp

lemma fmt_thinking:
  "formatMessageText (js ''Thinking...'') = js ''<p>Thinking...</p>''"
  by code_simp

lemma js_nonempty [simp]: "js (c # cs) \<noteq> []"
  by (simp add: js_def)

lemma format_value_string [simp]:
  "formatMessageText_value (Some (JString s)) = Inr (formatMessageText s)"
  by (simp add: formatMessageText_value_def formatMessageText_def)

lemma not_pending_settle [simp]: "\<not> pending (settle_element html el)"
  by (simp add: pending_def settle_element_def Let_def)

lemma children_settle [simp]: "children (settle_element html el) = InnerHTML html"
  by (simp add: settle_element_def Let_def)

lemma replace_string:
  assumes "i < length (chatBox p)" "pending (chatBox p ! i)"
  shows "replaceTemporaryMessage i (Some (JString s)) p =
           (None, p\<lparr>chatBox := (chatBox p)[i := settle_element (formatMessageText s) (chatBox p ! i)],
                    chatBox_atBottom := True\<rparr>)"
  using assms by (simp add: replaceTemporaryMessage_def pending_def)

lemma replace_value:
  assumes "i < length (chatBox p)" "pending (chatBox p ! i)"
  shows "(\<exists>e. replaceTemporaryMessage i v p = (Some e, p)) \<or>
         (\<exists>s. v = Some (JString s) \<and> replaceTemporaryMessage i v p =
           (None, p\<lparr>chatBox := (chatBox p)[i := settle_element (formatMessageText s) (chatBox p ! i)],
                    chatBox_atBottom := True\<rparr>)) \<or>
         (\<not> ToBoolean v \<and> replaceTemporaryMessage i v p =
           (None, p\<lparr>chatBox := (chatBox p)[i := settle_element [] (chatBox p ! i)],
                    chatBox_atBottom := True\<rparr>))"
  using assms
  by (auto simp: replaceTemporaryMessage_def pending_def formatMessageText_value_def
           split: option.splits json.splits)

text \<open>What the try block can do: replace the placeholder by a string, or throw with at most the console extended.\<close>

lemma try_block_cases:
  assumes "i < length (chatBox p)" "pending (chatBox p ! i)"
  shows "(\<exists>s. try_block fr i p =
           (None, p\<lparr>chatBox := (chatBox p)[i := settle_element (formatMessageText s) (chatBox p ! i)],
                    chatBox_atBottom := True\<rparr>)) \<or>
         (\<exists>e l. try_block fr i p = (Some e, p\<lparr>console := console p @ l\<rparr>))"
proof (cases fr)
  case (Rejected e)
  then have "try_block fr i p = (Some e, p\<lparr>console := console p @ []\<rparr>)"
    by (simp add: try_block_def)
  then show ?thesis by blast
next
  case (Resolved r)
  show ?thesis
  proof (cases "ok r")
    case False
    have "\<exists>e l. try_block fr i p = (Some e, p\<lparr>console := console p @ l\<rparr>)"
    proof (cases "json_result r")
      case (Inl e)
      then have "try_block fr i p =
          (Some (Error (Some (JString (js ''HTTP error! status: '' @ decimal (status r))))),
           p\<lparr>console := console p @ [(js ''Failed to parse error response JSON:'', e)]\<rparr>)"
        using Resolved False
        by (simp add: try_block_def console_error_def Let_def)
      then show ?thesis by blast
    next
      case (Inr d)
      show ?thesis
      proof (cases "error_detail d (Some (JString (js ''HTTP error! status: '' @ decimal (status r))))")
        case (Inl e)
        then have "try_block fr i p =
          (Some (Error (Some (JString (js ''HTTP error! status: '' @ decimal (status r))))),
           p\<lparr>console := console p @ [(js ''Failed to parse error response JSON:'', e)]\<rparr>)"
          using Resolved False Inr
          by (simp add: try_block_def console_error_def Let_def)
        then show ?thesis by blast
      next
        case (Inr m)
        then have "try_block fr i p = (Some (Error m), p\<lparr>console := console p @ []\<rparr>)"
          using Resolved False \<open>json_result r = Inr d\<close>
          by (simp add: try_block_def console_error_def Let_def)
        then show ?thesis by blast
      qed
    qed
    then show ?thesis by blast
  next
    case True
    show ?thesis
    proof (cases "json_result r")
      case (Inl e)
      then have "try_block fr i p = (Some e, p\<lparr>console := console p @ []\<rparr>)"
        using Resolved True by (simp add: try_block_def)
      then show ?thesis by blast
    next
      case (Inr d)
      show ?thesis
      proof (cases "if ToBoolean (Some d) then Get d (js ''result'') else Inr (Some d)")
        case (Inl e)
        then have "try_block fr i p = (Some e, p\<lparr>console := console p @ []\<rparr>)"
          using Resolved True Inr by (simp add: try_block_def)
        then show ?thesis by blast
      next
        case res: (Inr v)
        show ?thesis
        proof (cases "ToBoolean v")
          case False
          then have "try_block fr i p =
             replaceTemporaryMessage i (Some (JString (js ''Sorry, no response received.''))) p"
            using Resolved True Inr res by (simp add: try_block_def)
          then show ?thesis using replace_string[OF assms] by metis
        next
          case t: True
          then have eq: "try_block fr i p = replaceTemporaryMessage i v p"
            using Resolved True Inr res by (simp add: try_block_def)
          from replace_value[OF assms, of v] t
          consider e where "replaceTemporaryMessage i v p = (Some e, p\<lparr>console := console p @ []\<rparr>)"
            | s where "replaceTemporaryMessage i v p =
               (None, p\<lparr>chatBox := (chatBox p)[i := settle_element (formatMessageText s) (chatBox p ! i)],
                    chatBox_atBottom := True\<rparr>)"
            by auto
          then show ?thesis using eq by cases metis+
        qed
      qed
    qed
  qed
qed

lemma on_settled_cases:
  assumes "i < length (chatBox p)" "pending (chatBox p ! i)"
  shows "\<exists>s l. on_settled fr i p =
           (None, p\<lparr>chatBox := (chatBox p)[i := settle_element (formatMessageText s) (chatBox p ! i)],
                    chatBox_atBottom := True, console := console p @ l,
                    userInput_disabled := False, sendButton_disabled := False,
                    userInput_focused := True\<rparr>)"
proof -
  from try_block_cases[OF assms, of fr]
  consider s where "try_block fr i p =
           (None, p\<lparr>chatBox := (chatBox p)[i := settle_element (formatMessageText s) (chatBox p ! i)],
                    chatBox_atBottom := True\<rparr>)"
    | e l where "try_block fr i p = (Some e, p\<lparr>console := console p @ l\<rparr>)"
    by blast
  then show ?thesis
  proof cases
    case 1
    then have "on_settled fr i p =
           (None, p\<lparr>chatBox := (chatBox p)[i := settle_element (formatMessageText s) (chatBox p ! i)],
                    chatBox_atBottom := True, console := console p @ [],
                    userInput_disabled := False, sendButton_disabled := False,
                    userInput_focused := True\<rparr>)"
      by (simp add: on_settled_def focus_def)
    then show ?thesis by blast
  next
    case 2
    let ?p = "console_error (js ''Error sending message to API:'') e (p\<lparr>console := console p @ l\<rparr>)"
    have "i < length (chatBox ?p)" "pending (chatBox ?p ! i)"
      using assms by (simp_all add: console_error_def)
    from replace_string[OF this]
    have "on_settled fr i p =
           (None, p\<lparr>chatBox := (chatBox p)[i := settle_element (formatMessageText (js ''Failed to get response from server.'')) (chatBox p ! i)],
                    chatBox_atBottom := True, console := console p @ (l @ [(js ''Error sending message to API:'', e)]),
                    userInput_disabled := False, sendButton_disabled := False,
                    userInput_focused := True\<rparr>)"
      using 2 by (simp add: on_settled_def focus_def console_error_def)
    then show ?thesis by blast
  qed
qed



lemma no_field_falsy:
  assumes "\<not> has_field data key"
  shows "\<exists>v. (if ToBoolean (Some data) then Get data key else Inr (Some data)) = Inr v \<and> \<not> ToBoolean v"
proof (cases data)
  case (JObject kvs)
  with assms have "map_of (rev kvs) key = None"
    by (simp add: has_field_def map_of_eq_None_iff)
  with JObject show ?thesis by simp
qed (auto)

lemma on_settled_no_response:
  assumes "i < length (chatBox p)" "pending (chatBox p ! i)"
    and "ok r" "json_result r = Inr data"
    and "(if ToBoolean (Some data) then Get data (js ''result'') else Inr (Some data)) = Inr v"
    and "\<not> ToBoolean v"
  shows "on_settled (Resolved r) i p =
           (None, p\<lparr>chatBox := (chatBox p)[i := settle_element
                       (formatMessageText (js ''Sorry, no response received.'')) (chatBox p ! i)],
                    chatBox_atBottom := True,
                    userInput_disabled := False, sendButton_disabled := False,
                    userInput_focused := True\<rparr>)"
proof -
  have "try_block (Resolved r) i p =
          replaceTemporaryMessage i (Some (JString (js ''Sorry, no response received.''))) p"
    using assms(3-6) by (simp add: try_block_def)
  with replace_string[OF assms(1,2)] show ?thesis
    by (simp add: on_settled_def focus_def)
qed

lemma replace_never_escapes_string:
  "fst (replaceTemporaryMessage i (Some (JString s)) p) = None"
  by (simp add: replaceTemporaryMessage_def)

lemma replace_flags:
  "userInput_value (snd (replaceTemporaryMessage i v p)) = userInput_value p"
  "userInput_focused (snd (replaceTemporaryMessage i v p)) = userInput_focused p"
  by (simp_all add: replaceTemporaryMessage_def split: sum.splits)

lemma on_settled_cleanup:
  "fst (on_settled fr i p) = None \<and> \<not> userInput_disabled (snd (on_settled fr i p)) \<and>
   \<not> sendButton_disabled (snd (on_settled fr i p)) \<and> userInput_focused (snd (on_settled fr i p))"
proof -
  obtain t p1 where tb: "try_block fr i p = (t, p1)"
    by (cases "try_block fr i p")
  show ?thesis
  proof (cases t)
    case None
    then show ?thesis using tb by (simp add: on_settled_def focus_def)
  next
    case (Some e)
    obtain t2 p2 where r: "replaceTemporaryMessage i
        (Some (JString (js ''Failed to get response from server.'')))
        (console_error (js ''Error sending message to API:'') e p1) = (t2, p2)"
      by (cases "replaceTemporaryMessage i
        (Some (JString (js ''Failed to get response from server.'')))
        (console_error (js ''Error sending message to API:'') e p1)")
    then have "t2 = None"
      using replace_never_escapes_string by (metis fst_conv)
    then show ?thesis using tb Some r by (simp add: on_settled_def focus_def)
  qed
qed

text \<open>What the replacement leaves in the entry.\<close>

lemma settle_classes:
  "js ''thinking'' \<notin> set (classList (settle_element html el))"
  "js ''bot'' \<in> set (classList (settle_element html el))"
proof -
  have n: "js ''bot'' \<noteq> js ''thinking''" by (simp add: js_def)
  show "js ''thinking'' \<notin> set (classList (settle_element html el))"
    using n by (simp add: settle_element_def Let_def classList_add_def classList_remove_def)
  show "js ''bot'' \<in> set (classList (settle_element html el))"
    using n by (simp add: settle_element_def Let_def classList_add_def classList_remove_def)
qed

lemma settle_temporary [simp]: "dataset_temporary (settle_element html el) = None"
  by (simp add: settle_element_def Let_def)


lemma settled_entry:
  assumes "i < length (chatBox p)" "chatBox q = (chatBox p)[i := settle_element html (chatBox p ! i)]"
  shows "children (chatBox q ! i) = InnerHTML html" "dataset_temporary (chatBox q ! i) = None"
    "js ''thinking'' \<notin> set (classList (chatBox q ! i))" "js ''bot'' \<in> set (classList (chatBox q ! i))"
  using assms settle_classes by simp_all



text \<open>
  C5. A 2xx response whose body has no \<^verbatim>\<open>result\<close> field replaces the placeholder by
  the literal \<^verbatim>\<open>Sorry, no response received.\<close>: the content of the entry is the paragraph
  element with the literal, and the entry is no longer marked as temporary or as thinking.
  Whatever the request settles to, the handler ends with the input and the button enabled
  and the input focused.
\<close>

theorem missing_result_and_cleanup:
  "(\<forall>r data. settled = Resolved r \<and> ok r \<and> json_result r = Inr data \<and>
       \<not> has_field data (js ''result'') \<and> i < length (chatBox p) \<and> pending (chatBox p ! i) \<longrightarrow>
       chatBox (snd (on_settled settled i p)) =
         (chatBox p)[i := settle_element (formatMessageText (js ''Sorry, no response received.''))
                                         (chatBox p ! i)] \<and>
       children (chatBox (snd (on_settled settled i p)) ! i) =
         InnerHTML (js ''<p>Sorry, no response received.</p>'') \<and>
       dataset_temporary (chatBox (snd (on_settled settled i p)) ! i) = None \<and>
       js ''thinking'' \<notin> set (classList (chatBox (snd (on_settled settled i p)) ! i)) \<and>
       js ''bot'' \<in> set (classList (chatBox (snd (on_settled settled i p)) ! i))) \<and>
   fst (on_settled settled i p) = None \<and>
   \<not> userInput_disabled (snd (on_settled settled i p)) \<and>
   \<not> sendButton_disabled (snd (on_settled settled i p)) \<and>
   userInput_focused (snd (on_settled settled i p))"
proof -
  have "chatBox (snd (on_settled settled i p)) =
         (chatBox p)[i := settle_element (formatMessageText (js ''Sorry, no response received.''))
                                         (chatBox p ! i)] \<and>
       children (chatBox (snd (on_settled settled i p)) ! i) =
         InnerHTML (js ''<p>Sorry, no response received.</p>'') \<and>
       dataset_temporary (chatBox (snd (on_settled settled i p)) ! i) = None \<and>
       js ''thinking'' \<notin> set (classList (chatBox (snd (on_settled settled i p)) ! i)) \<and>
       js ''bot'' \<in> set (classList (chatBox (snd (on_settled settled i p)) ! i))"
    if "settled = Resolved r" "ok r" "json_result r = Inr data" "\<not> has_field data (js ''result'')"
       "i < length (chatBox p)" "pending (chatBox p ! i)" for r data
  proof -
    from no_field_falsy[OF that(4)] obtain v where
      "(if ToBoolean (Some data) then Get data (js ''result'') else Inr (Some data)) = Inr v"
      "\<not> ToBoolean v" by blast
    from on_settled_no_response[OF that(5,6,2,3) this] that(1)
    have c: "chatBox (snd (on_settled settled i p)) =
         (chatBox p)[i := settle_element (formatMessageText (js ''Sorry, no response received.''))
                                         (chatBox p ! i)]" by simp
    from settled_entry[OF that(5) c] have
      "children (chatBox (snd (on_settled settled i p)) ! i) =
         InnerHTML (js ''<p>Sorry, no response received.</p>'')"
      "dataset_temporary (chatBox (snd (on_settled settled i p)) ! i) = None"
      "js ''thinking'' \<notin> set (classList (chatBox (snd (on_settled settled i p)) ! i))"
      "js ''bot'' \<in> set (classList (chatBox (snd (on_settled settled i p)) ! i))"
      unfolding fmt_no_response by blast+
    with c show ?thesis by (intro conjI)
  qed
  then have 1: "\<forall>r data. settled = Resolved r \<and> ok r \<and> json_result r = Inr data \<and>
       \<not> has_field data (js ''result'') \<and> i < length (chatBox p) \<and> pending (chatBox p ! i) \<longrightarrow>
       chatBox (snd (on_settled settled i p)) =
         (chatBox p)[i := settle_element (formatMessageText (js ''Sorry, no response received.''))
                                         (chatBox p ! i)] \<and>
       children (chatBox (snd (on_settled settled i p)) ! i) =
         InnerHTML (js ''<p>Sorry, no response received.</p>'') \<and>
       dataset_temporary (chatBox (snd (on_settled settled i p)) ! i) = None \<and>
       js ''thinking'' \<notin> set (classList (chatBox (snd (on_settled settled i p)) ! i)) \<and>
       js ''bot'' \<in> set (classList (chatBox (snd (on_settled settled i p)) ! i))"
    by (intro allI impI) (elim conjE)
  from on_settled_cleanup[of settled i p] have 2: "fst (on_settled settled i p) = None \<and>
   \<not> userInput_disabled (snd (on_settled settled i p)) \<and>
   \<not> sendButton_disabled (snd (on_settled settled i p)) \<and>
   userInput_focused (snd (on_settled settled i p))" .
  from 1 2 show ?thesis by (rule conjI)
qed

theorem missing_result_and_cleanup_witness:
  "ok \<lparr>status = 200, json_result = Inr (JObject [])\<rparr> \<and>
   \<not> has_field (JObject []) (js ''result'') \<and>
   1 < length (chatBox page_waiting) \<and> pending (chatBox page_waiting ! 1) \<and>
   chatBox (snd (on_settled (Resolved \<lparr>status = 200, json_result = Inr (JObject [])\<rparr>) 1 page_waiting)) =
     (chatBox page_waiting)[1 := settle_element (formatMessageText (js ''Sorry, no response received.''))
                                         (chatBox page_waiting ! 1)] \<and>
   children (chatBox (snd (on_settled (Resolved \<lparr>status = 200, json_result = Inr (JObject [])\<rparr>) 1 page_waiting)) ! 1) =
     InnerHTML (js ''<p>Sorry, no response received.</p>'') \<and>
   \<not> userInput_disabled (snd (on_settled (Resolved \<lparr>status = 200, json_result = Inr (JObject [])\<rparr>) 1 page_waiting)) \<and>
   userInput_focused (snd (on_settled (Resolved \<lparr>status = 200, json_result = Inr (JObject [])\<rparr>) 1 page_waiting))"
  using missing_result_and_cleanup[of "Resolved \<lparr>status = 200, json_result = Inr (JObject [])\<rparr>" 1 page_waiting]
  by (simp add: page_waiting_def pending_def ok_def has_field_def fmt_no_response)

text \<open>
  C10. A 2xx response whose \<^verbatim>\<open>result\<close> is falsy (the empty string, for one) replaces
  the placeholder by the literal \<^verbatim>\<open>Sorry, no response received.\<close>, not by the result:
  the content of the entry is the paragraph element with the literal.
\<close>

theorem falsy_result_is_no_response:
  assumes "i < length (chatBox p)" "pending (chatBox p ! i)"
    and "ok r" "json_result r = Inr data"
    and "Get data (js ''result'') = Inr v" "\<not> ToBoolean v"
  shows "chatBox (snd (on_settled (Resolved r) i p)) =
         (chatBox p)[i := settle_element (formatMessageText (js ''Sorry, no response received.''))
                                         (chatBox p ! i)] \<and>
       children (chatBox (snd (on_settled (Resolved r) i p)) ! i) =
         InnerHTML (js ''<p>Sorry, no response received.</p>'') \<and>
       dataset_temporary (chatBox (snd (on_settled (Resolved r) i p)) ! i) = None \<and>
       js ''thinking'' \<notin> set (classList (chatBox (snd (on_settled (Resolved r) i p)) ! i)) \<and>
       js ''bot'' \<in> set (classList (chatBox (snd (on_settled (Resolved r) i p)) ! i))"
proof -
  have "\<exists>v'. (if ToBoolean (Some data) then Get data (js ''result'') else Inr (Some data)) = Inr v' \<and> \<not> ToBoolean v'"
    using assms(5,6) by auto
  then obtain v' where
    "(if ToBoolean (Some data) then Get data (js ''result'') else Inr (Some data)) = Inr v'"
    "\<not> ToBoolean v'" by blast
  from on_settled_no_response[OF assms(1,2,3,4) this]
  have c: "chatBox (snd (on_settled (Resolved r) i p)) =
         (chatBox p)[i := settle_element (formatMessageText (js ''Sorry, no response received.''))
                                         (chatBox p ! i)]" by simp
  from settled_entry[OF assms(1) c] have
      "children (chatBox (snd (on_settled (Resolved r) i p)) ! i) =
         InnerHTML (js ''<p>Sorry, no response received.</p>'')"
      "dataset_temporary (chatBox (snd (on_settled (Resolved r) i p)) ! i) = None"
      "js ''thinking'' \<notin> set (classList (chatBox (snd (on_settled (Resolved r) i p)) ! i))"
      "js ''bot'' \<in> set (classList (chatBox (snd (on_settled (Resolved r) i p)) ! i))"
    unfolding fmt_no_response by blast+
  with c show ?thesis by (intro conjI)
qed

theorem falsy_result_is_no_response_witness:
  "1 < length (chatBox page_waiting) \<and> pending (chatBox page_waiting ! 1) \<and>
   ok \<lparr>status = 200, json_result = Inr (JObject [(js ''result'', JString [])])\<rparr> \<and>
   Get (JObject [(js ''result'', JString [])]) (js ''result'') = Inr (Some (JString [])) \<and>
   \<not> ToBoolean (Some (JString [])) \<and>
   chatBox (snd (on_settled
       (Resolved \<lparr>status = 200, json_result = Inr (JObject [(js ''result'', JString [])])\<rparr>) 1 page_waiting)) =
     (chatBox page_waiting)[1 := settle_element (formatMessageText (js ''Sorry, no response received.''))
                                         (chatBox page_waiting ! 1)] \<and>
   children (chatBox (snd (on_settled
       (Resolved \<lparr>status = 200, json_result = Inr (JObject [(js ''result'', JString [])])\<rparr>) 1 page_waiting)) ! 1) =
     InnerHTML (js ''<p>Sorry, no response received.</p>'')"
  using falsy_result_is_no_response[of 1 page_waiting
          "\<lparr>status = 200, json_result = Inr (JObject [(js ''result'', JString [])])\<rparr>"
          "JObject [(js ''result'', JString [])]" "Some (JString [])"]
  by (simp add: page_waiting_def pending_def ok_def fmt_no_response)

text \<open>
  C7. A submission whose trimmed text is empty changes nothing: the page is as it was
  (chat box, input value, both disabled flags) and no request is sent.
\<close>

theorem empty_submit_is_noop:
  assumes "trim (userInput_value (doc s)) = []"
  shows "submit_handler (doc s) = (doc s, None) \<and> after_submit s = s"
  using assms by (simp add: submit_handler_def after_submit_def)

theorem empty_submit_is_noop_witness:
  "trim (userInput_value (doc \<lparr>doc = page_idle\<lparr>userInput_value := js ''  ''\<rparr>, waiting = []\<rparr>)) = [] \<and>
   submit_handler (page_idle\<lparr>userInput_value := js ''  ''\<rparr>) =
     (page_idle\<lparr>userInput_value := js ''  ''\<rparr>, None) \<and>
   after_submit \<lparr>doc = page_idle\<lparr>userInput_value := js ''  ''\<rparr>, waiting = []\<rparr> =
     \<lparr>doc = page_idle\<lparr>userInput_value := js ''  ''\<rparr>, waiting = []\<rparr>"
  using empty_submit_is_noop[of "\<lparr>doc = page_idle\<lparr>userInput_value := js ''  ''\<rparr>, waiting = []\<rparr>"]
  by (simp add: trim_def js_def isWhiteSpace_def)

text \<open>
  C8. A submission whose trimmed text is not empty sends one request: POST to
  \<^verbatim>\<open>/api/chat\<close> with the header \<^verbatim>\<open>Content-Type: application/json\<close> and, as body, the
  JSON text of an object whose \<^verbatim>\<open>messages\<close> array holds the one message with role
  \<^verbatim>\<open>user\<close> and the trimmed text as content.
\<close>

theorem submit_request_shape:
  assumes "trim (userInput_value p) \<noteq> []"
  shows "\<exists>p' thinking payload.
     submit_handler p =
       (p', Some (thinking,
          \<lparr>req_url = js ''/api/chat'', req_method = js ''POST'',
           req_headers = [(js ''Content-Type'', js ''application/json'')],
           req_body = JSON_stringify payload\<rparr>)) \<and>
     messages payload = [\<lparr>role = js ''user'', content = trim (userInput_value p)\<rparr>] \<and>
     JSON_stringify payload =
       js ''{\"messages\":[{\"role\":\"user\",\"content\":'' @
       QuoteJSONString (trim (userInput_value p)) @ js ''}]}''"
proof -
  let ?payload = "\<lparr>messages = [\<lparr>role = js ''user'', content = trim (userInput_value p)\<rparr>]\<rparr>"
  have "\<exists>p' thinking. submit_handler p =
       (p', Some (thinking,
          \<lparr>req_url = js ''/api/chat'', req_method = js ''POST'',
           req_headers = [(js ''Content-Type'', js ''application/json'')],
           req_body = JSON_stringify ?payload\<rparr>))"
    using assms by (simp add: submit_handler_def Let_def split: prod.splits)
  then obtain p' thinking where h: "submit_handler p =
       (p', Some (thinking,
          \<lparr>req_url = js ''/api/chat'', req_method = js ''POST'',
           req_headers = [(js ''Content-Type'', js ''application/json'')],
           req_body = JSON_stringify ?payload\<rparr>))" by blast
  have j: "JSON_stringify ?payload =
       js ''{\"messages\":[{\"role\":\"user\",\"content\":'' @
       QuoteJSONString (trim (userInput_value p)) @ js ''}]}''"
  proof -
    have q: "QuoteJSONString (js ''user'') = js ''\"user\"''" by code_simp
    have a: "js ''{\"messages\":[{\"role\":\"user\",\"content\":'' =
             js ''{\"messages\":['' @ js ''{\"role\":'' @ js ''\"user\"'' @ js '',\"content\":''"
      and b: "js ''}]}'' = js ''}'' @ js '']}''"
      by (simp_all add: js_def)
    show ?thesis
      unfolding a b by (simp add: JSON_stringify_def stringify_message_def q)
  qed
  have m: "messages ?payload = [\<lparr>role = js ''user'', content = trim (userInput_value p)\<rparr>]"
    by simp
  from h m j show ?thesis by blast
qed

theorem submit_request_shape_witness:
  "trim (userInput_value page_idle) \<noteq> [] \<and>
   (\<exists>p' thinking.
     submit_handler page_idle =
       (p', Some (thinking,
          \<lparr>req_url = js ''/api/chat'', req_method = js ''POST'',
           req_headers = [(js ''Content-Type'', js ''application/json'')],
           req_body = js ''{\"messages\":[{\"role\":\"user\",\"content\":\"hello\"}]}''\<rparr>)))"
proof -
  have t: "trim (userInput_value page_idle) = js ''hello''"
    by (simp add: page_idle_def trim_def js_def isWhiteSpace_def isLineTerminator_def)
  have q: "QuoteJSONString (js ''hello'') = js ''\"hello\"''"
    by code_simp
  from t have "trim (userInput_value page_idle) \<noteq> []" by simp
  from submit_request_shape[OF this] obtain p' thinking payload where
    h: "submit_handler page_idle =
       (p', Some (thinking,
          \<lparr>req_url = js ''/api/chat'', req_method = js ''POST'',
           req_headers = [(js ''Content-Type'', js ''application/json'')],
           req_body = JSON_stringify payload\<rparr>))"
    "JSON_stringify payload =
       js ''{\"messages\":[{\"role\":\"user\",\"content\":'' @
       QuoteJSONString (trim (userInput_value page_idle)) @ js ''}]}''" by blast
  from h(2) have "JSON_stringify payload = js ''{\"messages\":[{\"role\":\"user\",\"content\":\"hello\"}]}''"
    unfolding t q by (simp add: js_def)
  with h(1) t show ?thesis by auto
qed

section \<open>The single-flight invariant\<close>

lemma submit_handler_nonempty:
  assumes "trim (userInput_value p) \<noteq> []"
  shows "\<exists>u t req. \<not> pending u \<and> pending t \<and>
     submit_handler p =
       (p\<lparr>chatBox := chatBox p @ [u, t], chatBox_atBottom := True, userInput_value := [],
          userInput_disabled := True, sendButton_disabled := True\<rparr>,
        Some (Suc (length (chatBox p)), req))"
proof -
  let ?u = "\<lparr>classList = classList_add (js ''user'') (classList_add (js ''chat-message'') []),
             dataset_temporary = None, children = TextContent (trim (userInput_value p))\<rparr>"
  let ?t = "\<lparr>classList = classList_add (js ''thinking'')
                  (classList_add (js ''bot'') (classList_add (js ''chat-message'') [])),
             dataset_temporary = Some (js ''true''),
             children = InnerHTML (formatMessageText (js ''Thinking...''))\<rparr>"
  have "\<not> pending ?u" "pending ?t" by (simp_all add: pending_def)
  moreover have "\<exists>req. submit_handler p =
       (p\<lparr>chatBox := chatBox p @ [?u, ?t], chatBox_atBottom := True, userInput_value := [],
          userInput_disabled := True, sendButton_disabled := True\<rparr>,
        Some (Suc (length (chatBox p)), req))"
    using assms by (simp add: submit_handler_def addMessage_def Let_def)
  ultimately show ?thesis by blast
qed

lemma inv_initial: "initial s \<Longrightarrow> inv s"
  by (auto simp: initial_def inv_def list_all_length)

lemma inv_typed:
  assumes "inv s"
  shows "inv (s\<lparr>doc := (doc s)\<lparr>userInput_value := v\<rparr>\<rparr>)"
  using assms by (simp add: inv_def)

lemma inv_submit:
  assumes "inv s" "\<not> sendButton_disabled (doc s)"
  shows "inv (after_submit s)"
proof (cases "trim (userInput_value (doc s)) = []")
  case True
  then have "after_submit s = s" by (simp add: submit_handler_def after_submit_def)
  with assms show ?thesis by simp
next
  case False
  from submit_handler_nonempty[OF False] obtain u t req where
    ut: "\<not> pending u" "pending t" and
    sh: "submit_handler (doc s) =
       ((doc s)\<lparr>chatBox := chatBox (doc s) @ [u, t], chatBox_atBottom := True, userInput_value := [],
          userInput_disabled := True, sendButton_disabled := True\<rparr>,
        Some (Suc (length (chatBox (doc s))), req))" by blast
  from assms have w: "waiting s = []" by (simp add: inv_def)
  with assms have np: "\<forall>j < length (chatBox (doc s)). \<not> pending (chatBox (doc s) ! j)"
    by (simp add: inv_def)
  have as: "after_submit s =
      \<lparr>doc = (doc s)\<lparr>chatBox := chatBox (doc s) @ [u, t], chatBox_atBottom := True, userInput_value := [],
          userInput_disabled := True, sendButton_disabled := True\<rparr>,
       waiting = [(Suc (length (chatBox (doc s))), req)]\<rparr>"
    using sh w by (simp add: after_submit_def)
  show ?thesis
    unfolding as inv_def using ut np
    by (auto simp: nth_append less_Suc_eq)
qed

lemma inv_settled:
  assumes "inv s" "i < length (waiting s)"
  shows "inv (after_settled i settled s)"
proof -
  from assms have i0: "i = 0" and len: "length (waiting s) = 1" by (auto simp: inv_def)
  then obtain w where w: "waiting s = [w]" by (cases "waiting s") auto
  with assms have b: "fst w < length (chatBox (doc s))" and pw: "pending (chatBox (doc s) ! fst w)"
    and only: "\<forall>j < length (chatBox (doc s)). pending (chatBox (doc s) ! j) \<longrightarrow> j = fst w"
    by (auto simp: inv_def)
  from on_settled_cases[OF b pw, of settled] obtain x l where
    os: "on_settled settled (fst w) (doc s) =
           (None, (doc s)\<lparr>chatBox := (chatBox (doc s))[fst w := settle_element (formatMessageText x) (chatBox (doc s) ! fst w)],
                    chatBox_atBottom := True, console := console (doc s) @ l,
                    userInput_disabled := False, sendButton_disabled := False,
                    userInput_focused := True\<rparr>)" by blast
  show ?thesis
    using only b by (auto simp: after_settled_def i0 w os inv_def nth_list_update)
qed

lemma inv_step: "step s e s' \<Longrightarrow> inv s \<Longrightarrow> inv s'"
  by (induction rule: step.induct) (auto intro: inv_typed inv_submit inv_settled)

lemma reachable_inv: "reachable s \<Longrightarrow> inv s"
  by (induction rule: reachable.induct) (auto intro: inv_initial inv_step)

lemma filter_at_most_one:
  assumes "\<forall>i < length xs. \<forall>j < length xs. P (xs ! i) \<and> P (xs ! j) \<longrightarrow> i = j"
  shows "length (filter P xs) \<le> 1"
  using assms
proof (induction xs)
  case Nil
  then show ?case by simp
next
  case (Cons x xs)
  have ih: "length (filter P xs) \<le> 1"
  proof (rule Cons.IH, intro allI impI)
    fix i j assume "i < length xs" "j < length xs" "P (xs ! i) \<and> P (xs ! j)"
    with Cons.prems[rule_format, of "Suc i" "Suc j"] show "i = j" by simp
  qed
  show ?case
  proof (cases "P x")
    case False
    with ih show ?thesis by simp
  next
    case True
    have "\<not> P y" if "y \<in> set xs" for y
    proof
      assume "P y"
      from that obtain k where "k < length xs" "xs ! k = y" by (auto simp: in_set_conv_nth)
      with Cons.prems[rule_format, of 0 "Suc k"] True \<open>P y\<close> show False by simp
    qed
    then have "filter P xs = []" by (simp add: filter_empty_conv)
    with True show ?thesis by simp
  qed
qed

text \<open>
  C6. In every reachable state at most one element of the chat box is a placeholder and at
  most one handler waits; the controls are disabled exactly in the states that wait;
  from a waiting state the only step is the settling of the request, which leads to an idle
  state; and an idle state becomes a waiting one only by a submission of non-empty text.
\<close>

theorem single_flight:
  assumes "reachable s"
  shows "length (filter pending (chatBox (doc s))) \<le> 1 \<and>
         length (waiting s) \<le> 1 \<and>
         (awaitingResponse s \<longleftrightarrow> userInput_disabled (doc s) \<and> sendButton_disabled (doc s)) \<and>
         (idle s \<longleftrightarrow> \<not> userInput_disabled (doc s) \<and> \<not> sendButton_disabled (doc s)) \<and>
         (\<forall>e s'. step s e s' \<and> awaitingResponse s \<longrightarrow> (\<exists>i settled. e = Settled i settled) \<and> idle s') \<and>
         (\<forall>e s'. step s e s' \<and> idle s \<and> awaitingResponse s' \<longrightarrow>
                   e = Submit \<and> trim (userInput_value (doc s)) \<noteq> [])"
proof -
  from assms have i: "inv s" by (rule reachable_inv)
  have a: "length (filter pending (chatBox (doc s))) \<le> 1"
  proof (rule filter_at_most_one, intro allI impI)
    fix j k assume "j < length (chatBox (doc s))" "k < length (chatBox (doc s))"
      "pending (chatBox (doc s) ! j) \<and> pending (chatBox (doc s) ! k)"
    with i obtain w1 w2 where "w1 \<in> set (waiting s)" "w2 \<in> set (waiting s)" "fst w1 = j" "fst w2 = k"
      unfolding inv_def by blast
    moreover from i have "length (waiting s) \<le> 1" by (simp add: inv_def)
    ultimately show "j = k" by (cases "waiting s") auto
  qed
  have b: "(\<exists>i settled. e = Settled i settled) \<and> idle s'" if "step s e s'" "awaitingResponse s" for e s'
    using that
  proof (cases rule: step.cases)
    case (step_typed v)
    with i that(2) show ?thesis by (simp add: inv_def awaitingResponse_def)
  next
    case step_submit
    with i that(2) show ?thesis by (simp add: inv_def awaitingResponse_def)
  next
    case (step_settled k settled)
    with i have "k = 0" "length (waiting s) = 1" by (auto simp: inv_def)
    with step_settled show ?thesis by (simp add: after_settled_def idle_def)
  qed
  have c: "e = Submit \<and> trim (userInput_value (doc s)) \<noteq> []"
    if "step s e s'" "idle s" "awaitingResponse s'" for e s'
    using that
  proof (cases rule: step.cases)
    case (step_typed v)
    with that show ?thesis by (simp add: idle_def awaitingResponse_def)
  next
    case step_submit
    have "trim (userInput_value (doc s)) \<noteq> []"
    proof
      assume "trim (userInput_value (doc s)) = []"
      then have "after_submit s = s" by (simp add: submit_handler_def after_submit_def)
      with step_submit that show False by (simp add: idle_def awaitingResponse_def)
    qed
    with step_submit show ?thesis by simp
  next
    case (step_settled k settled)
    with that show ?thesis by (simp add: idle_def)
  qed
  from i a b c show ?thesis
    unfolding inv_def idle_def awaitingResponse_def by blast
qed

theorem single_flight_witness:
  "reachable (after_submit \<lparr>doc = page_idle, waiting = []\<rparr>) \<and>
   awaitingResponse (after_submit \<lparr>doc = page_idle, waiting = []\<rparr>) \<and>
   step (after_submit \<lparr>doc = page_idle, waiting = []\<rparr>) (Settled 0 (Rejected TypeError))
        (after_settled 0 (Rejected TypeError) (after_submit \<lparr>doc = page_idle, waiting = []\<rparr>)) \<and>
   length (filter pending (chatBox (doc (after_submit \<lparr>doc = page_idle, waiting = []\<rparr>)))) \<le> 1 \<and>
   idle (after_settled 0 (Rejected TypeError) (after_submit \<lparr>doc = page_idle, waiting = []\<rparr>))"
proof -
  let ?s0 = "\<lparr>doc = page_idle, waiting = []\<rparr>"
  let ?s1 = "after_submit ?s0"
  have "initial ?s0" by (simp add: initial_def page_idle_def)
  then have r0: "reachable ?s0" by (rule reach_initial)
  have "step ?s0 Submit ?s1" by (rule step_submit) (simp add: page_idle_def)
  with r0 have r1: "reachable ?s1" by (rule reach_step)
  have t: "trim (userInput_value page_idle) \<noteq> []"
    by (simp add: page_idle_def trim_def js_def isWhiteSpace_def isLineTerminator_def)
  from submit_handler_nonempty[OF t] have w: "length (waiting ?s1) = 1"
    by (auto simp: after_submit_def)
  then have a: "awaitingResponse ?s1" by (auto simp: awaitingResponse_def)
  have st: "step ?s1 (Settled 0 (Rejected TypeError)) (after_settled 0 (Rejected TypeError) ?s1)"
    by (rule step_settled) (simp add: w)
  from single_flight[OF r1] a st r1 show ?thesis by blast
qed

section \<open>Membership in the list of matches\<close>

text \<open>
  The equations of the two recursions that repeat their left-hand side are unfolded by
  hand only.
\<close>

declare replace_from.simps [simp del]
declare ms.simps(6,7) [simp del]

lemma prev_append [simp]: "prev (prev p a) b = prev p (a @ b)"
  by simp

lemma in_Chr:
  "q \<in> set (ms (Chr c) (p, xs, k)) \<longleftrightarrow> (\<exists>ys. xs = c # ys \<and> q = (Some c, ys, k))"
  by (cases xs) auto

lemma in_Cls:
  "q \<in> set (ms (Cls P) (p, xs, k)) \<longleftrightarrow> (\<exists>x ys. xs = x # ys \<and> P x \<and> q = (Some x, ys, k))"
  by (cases xs) auto

lemma in_Seq:
  "q \<in> set (ms (Seq a b) st) \<longleftrightarrow> (\<exists>st1 \<in> set (ms a st). q \<in> set (ms b st1))"
  by (cases st) auto

lemma in_Grp:
  "q \<in> set (ms (Grp n a) (p, xs, k)) \<longleftrightarrow>
     (\<exists>p' ys k'. (p', ys, k') \<in> set (ms a (p, xs, k)) \<and>
                  q = (p', ys, k'(n \<mapsto> take (length xs - length ys) xs)))"
  by (force simp: image_iff)

lemma in_Bol:
  "q \<in> set (ms Bol (p, xs, k)) \<longleftrightarrow> q = (p, xs, k) \<and> (case p of None \<Rightarrow> True | Some c \<Rightarrow> isLineTerminator c)"
  by (auto split: option.splits)

lemma in_Eol:
  "q \<in> set (ms Eol (p, xs, k)) \<longleftrightarrow> q = (p, xs, k) \<and> (case xs of [] \<Rightarrow> True | x # _ \<Rightarrow> isLineTerminator x)"
  by (auto split: list.splits)

lemma in_NotAhead:
  "q \<in> set (ms (NotAhead a) (p, xs, k)) \<longleftrightarrow> q = (p, xs, k) \<and> ms a (p, xs, k) = []"
  by auto

lemma star_cls_nil: "ms (Star (Cls P)) (p, [], k) = [(p, [], k)]"
  by (simp add: ms.simps(6))

lemma star_cls_cons:
  "ms (Star (Cls P)) (p, x # xs, k) =
     (if P x then ms (Star (Cls P)) (Some x, xs, k) @ [(p, x # xs, k)] else [(p, x # xs, k)])"
  by (simp add: ms.simps(6))

lemma lazy_cls_nil: "ms (Lazy (Cls P)) (p, [], k) = [(p, [], k)]"
  by (simp add: ms.simps(7))

lemma lazy_cls_cons:
  "ms (Lazy (Cls P)) (p, x # xs, k) =
     (if P x then (p, x # xs, k) # ms (Lazy (Cls P)) (Some x, xs, k) else [(p, x # xs, k)])"
  by (simp add: ms.simps(7))

lemma run_cons:
  "(\<exists>m ys. x # xs = m @ ys \<and> (\<forall>c \<in> set m. P c) \<and> q = (prev p m, ys, k)) \<longleftrightarrow>
     q = (p, x # xs, k) \<or>
     (P x \<and> (\<exists>m ys. xs = m @ ys \<and> (\<forall>c \<in> set m. P c) \<and> q = (prev (Some x) m, ys, k)))"
  (is "?L \<longleftrightarrow> ?R")
proof
  assume ?L
  then obtain m ys where h: "x # xs = m @ ys" "\<forall>c \<in> set m. P c" "q = (prev p m, ys, k)" by blast
  show ?R
  proof (cases m)
    case Nil
    with h show ?thesis by simp
  next
    case (Cons a m')
    with h have "P x" "xs = m' @ ys" "\<forall>c \<in> set m'. P c" "q = (prev (Some x) m', ys, k)" by auto
    then show ?thesis by blast
  qed
next
  assume ?R
  then show ?L
  proof
    assume "q = (p, x # xs, k)"
    then have "x # xs = [] @ (x # xs) \<and> (\<forall>c \<in> set []. P c) \<and> q = (prev p [], x # xs, k)" by simp
    then show ?L by blast
  next
    assume "P x \<and> (\<exists>m ys. xs = m @ ys \<and> (\<forall>c \<in> set m. P c) \<and> q = (prev (Some x) m, ys, k))"
    then obtain m ys where "P x" "xs = m @ ys" "\<forall>c \<in> set m. P c" "q = (prev (Some x) m, ys, k)" by blast
    then have "x # xs = (x # m) @ ys \<and> (\<forall>c \<in> set (x # m). P c) \<and> q = (prev p (x # m), ys, k)"
      by simp
    then show ?L by blast
  qed
qed

lemma in_Star_Cls:
  "q \<in> set (ms (Star (Cls P)) (p, xs, k)) \<longleftrightarrow>
     (\<exists>m ys. xs = m @ ys \<and> (\<forall>c \<in> set m. P c) \<and> q = (prev p m, ys, k))"
proof (induction xs arbitrary: p)
  case Nil
  then show ?case by (simp add: star_cls_nil)
next
  case (Cons x xs)
  show ?case unfolding run_cons star_cls_cons using Cons.IH[of "Some x"] by auto
qed

lemma in_Lazy_Cls:
  "q \<in> set (ms (Lazy (Cls P)) (p, xs, k)) \<longleftrightarrow>
     (\<exists>m ys. xs = m @ ys \<and> (\<forall>c \<in> set m. P c) \<and> q = (prev p m, ys, k))"
proof (induction xs arbitrary: p)
  case Nil
  then show ?case by (simp add: lazy_cls_nil)
next
  case (Cons x xs)
  show ?case unfolding run_cons lazy_cls_cons using Cons.IH[of "Some x"] by auto
qed

lemma in_Plus_Cls:
  "q \<in> set (ms (Plus (Cls P)) (p, xs, k)) \<longleftrightarrow>
     (\<exists>m ys. xs = m @ ys \<and> m \<noteq> [] \<and> (\<forall>c \<in> set m. P c) \<and> q = (Some (last m), ys, k))"
  (is "?L \<longleftrightarrow> ?R")
proof
  assume ?L
  then obtain x xs' where x: "xs = x # xs'" "P x" and q: "q \<in> set (ms (Star (Cls P)) (Some x, xs', k))"
    unfolding Plus_def in_Seq by (auto simp: in_Cls)
  from q obtain m ys where "xs' = m @ ys" "\<forall>c \<in> set m. P c" "q = (prev (Some x) m, ys, k)"
    unfolding in_Star_Cls by blast
  with x have "xs = (x # m) @ ys \<and> x # m \<noteq> [] \<and> (\<forall>c \<in> set (x # m). P c) \<and> q = (Some (last (x # m)), ys, k)"
    by simp
  then show ?R by blast
next
  assume ?R
  then obtain m ys where h: "xs = m @ ys" "m \<noteq> []" "\<forall>c \<in> set m. P c" "q = (Some (last m), ys, k)" by blast
  then obtain x m' where m: "m = x # m'" by (cases m) auto
  with h have "(Some x, m' @ ys, k) \<in> set (ms (Cls P) (p, xs, k))" by (simp add: in_Cls)
  moreover from h m have "q \<in> set (ms (Star (Cls P)) (Some x, m' @ ys, k))"
    unfolding in_Star_Cls by (intro exI[of _ m'] exI[of _ ys]) auto
  ultimately show ?L unfolding Plus_def in_Seq by blast
qed

lemma in_lit:
  "q \<in> set (ms (lit s) (p, xs, k)) \<longleftrightarrow> (\<exists>ys. xs = js s @ ys \<and> q = (prev p (js s), ys, k))"
proof (induction s arbitrary: p xs)
  case Nil
  then show ?case by (simp add: lit_def js_def)
next
  case (Cons c s)
  have l: "lit (c # s) = Seq (Chr (of_nat (of_char c))) (lit s)" by (simp add: lit_def)
  have j: "js (c # s) = of_nat (of_char c) # js s" by (simp add: js_def)
  show ?case unfolding l j in_Seq
    by (auto simp: in_Chr Cons.IH)
qed

section \<open>The invariant and where a safe text can be cut\<close>

lemma safe_append: "safe T a \<Longrightarrow> safe T b \<Longrightarrow> safe T (a @ b)"
  by (induction rule: safe.induct) (auto intro: safe.intros)

lemma safe_mono: "safe T s \<Longrightarrow> set T \<subseteq> set T' \<Longrightarrow> safe T' s"
  by (induction rule: safe.induct) (auto intro: safe.intros)

lemma safe_token: "t \<in> set T \<Longrightarrow> safe T t"
  using safe_tok[of t T "[]"] by (simp add: safe_nil)

lemma safe_plain_string: "\<forall>c \<in> set s. plain c \<Longrightarrow> safe T s"
  by (induction s) (auto intro: safe.intros)

text \<open>Cutting in front of a code unit that no token starts with.\<close>

lemma safe_tl:
  assumes "safe T s" "s = c # zs" "\<forall>t \<in> set T. t = [] \<or> hd t \<noteq> c"
  shows "safe T zs"
  using assms
proof (induction arbitrary: zs rule: safe.induct)
  case safe_nil
  then show ?case by simp
next
  case (safe_chr c' s)
  then show ?case by simp
next
  case (safe_tok t s)
  show ?case
  proof (cases t)
    case Nil
    with safe_tok show ?thesis by simp
  next
    case (Cons a t')
    with safe_tok.prems safe_tok.hyps(1) show ?thesis by force
  qed
qed

lemma safe_drop_run:
  assumes "safe T (m @ ys)" "\<forall>c \<in> set m. \<forall>t \<in> set T. t = [] \<or> hd t \<noteq> c"
  shows "safe T ys"
  using assms
proof (induction m)
  case Nil
  then show ?case by simp
next
  case (Cons a m)
  from Cons.prems have "safe T (m @ ys)" using safe_tl[of T "a # m @ ys" a "m @ ys"] by simp
  with Cons show ?case by simp
qed

text \<open>Cutting at a code unit that occurs in no token.\<close>

lemma safe_split:
  assumes "safe T s" "s = a @ c # b" "\<forall>t \<in> set T. c \<notin> set t"
  shows "safe T a \<and> safe T (c # b)"
  using assms
proof (induction arbitrary: a rule: safe.induct)
  case safe_nil
  then show ?case by simp
next
  case (safe_chr c' s)
  show ?case
  proof (cases a)
    case Nil
    with safe_chr show ?thesis by (auto intro: safe.intros)
  next
    case (Cons x a')
    with safe_chr.prems have "s = a' @ c # b" "x = c'" by auto
    with safe_chr.IH[of a'] safe_chr.prems safe_chr.hyps Cons show ?thesis
      by (auto intro: safe.intros)
  qed
next
  case (safe_tok t s)
  from safe_tok.prems(1) consider u where "a = t @ u" "s = u @ c # b"
    | u where "t = a @ u" "u @ s = c # b"
    by (auto simp: append_eq_append_conv2)
  then show ?case
  proof cases
    case 1
    with safe_tok.IH[of u] safe_tok.prems safe_tok.hyps show ?thesis
      by (auto intro: safe.intros)
  next
    case 2
    show ?thesis
    proof (cases u)
      case Nil
      with 2 have "a = t" "s = [] @ c # b" by auto
      with safe_tok.IH[of "[]"] safe_tok.prems safe_tok.hyps show ?thesis
        by (auto intro: safe_token)
    next
      case (Cons x u')
      with 2 have "c \<in> set t" by auto
      with safe_tok.prems(2) safe_tok.hyps(1) show ?thesis by blast
    qed
  qed
qed

lemma safe_split_end:
  assumes "safe T (a @ b)" "b = [] \<or> (\<forall>t \<in> set T. hd b \<notin> set t)"
  shows "safe T a \<and> safe T b"
proof (cases b)
  case Nil
  with assms show ?thesis by (simp add: safe_nil)
next
  case (Cons c b')
  with assms have n: "\<forall>t \<in> set T. c \<notin> set t" by simp
  from safe_split[OF assms(1) _ n, of a b'] Cons show ?thesis by simp
qed

text \<open>Cutting behind a code unit that tokens only end with.\<close>

lemma safe_split_after:
  assumes "safe T s" "s = a @ c # b" "\<not> plain c" "\<forall>t \<in> set T. c \<notin> set (butlast t)"
  shows "safe T (a @ [c]) \<and> safe T b"
  using assms
proof (induction arbitrary: a rule: safe.induct)
  case safe_nil
  then show ?case by simp
next
  case (safe_chr c' s)
  show ?case
  proof (cases a)
    case Nil
    with safe_chr show ?thesis by auto
  next
    case (Cons x a')
    with safe_chr.prems have "s = a' @ c # b" "x = c'" by auto
    with safe_chr.IH[of a'] safe_chr.prems safe_chr.hyps Cons show ?thesis
      by (auto intro: safe.intros)
  qed
next
  case (safe_tok t s)
  from safe_tok.prems(1) have "t @ s = a @ c # b" by simp
  then obtain us where us: "(t = a @ us \<and> us @ s = c # b) \<or> (t @ us = a \<and> s = us @ c # b)"
    unfolding append_eq_append_conv2 by blast
  then consider u where "a = t @ u" "s = u @ c # b"
    | u where "t = a @ u" "u @ s = c # b" "u \<noteq> []"
  proof (cases "us = []")
    case True
    with us have "a = t @ []" "s = [] @ c # b" by auto
    then show ?thesis using that(1) by blast
  next
    case False
    with us that show ?thesis by blast
  qed
  then show ?case
  proof cases
    case 1
    with safe_tok.IH[of u] safe_tok.prems safe_tok.hyps show ?thesis
      by (auto intro: safe.intros)
  next
    case 2
    then obtain u' where u: "u = c # u'" "u' @ s = b" by (cases u) auto
    have "u' = []"
    proof (rule ccontr)
      assume "u' \<noteq> []"
      with 2 u have "c \<in> set (butlast t)" by (simp add: butlast_append)
      with safe_tok.prems(3) safe_tok.hyps(1) show False by blast
    qed
    with 2 u have "t = a @ [c]" "s = b" by auto
    with safe_tok.hyps show ?thesis by (auto intro: safe_token)
  qed
qed

text \<open>Cutting a last code unit that no token ends with.\<close>

lemma safe_butlast:
  assumes "safe T s" "s = a @ [c]" "\<forall>t \<in> set T. t = [] \<or> last t \<noteq> c"
  shows "safe T a"
  using assms
proof (induction arbitrary: a rule: safe.induct)
  case safe_nil
  then show ?case by simp
next
  case (safe_chr c' s)
  show ?case
  proof (cases a)
    case Nil
    then show ?thesis by (simp add: safe_nil)
  next
    case (Cons x a')
    with safe_chr.prems have "s = a' @ [c]" "x = c'" by auto
    with safe_chr.IH[of a'] safe_chr.prems safe_chr.hyps Cons show ?thesis
      by (auto intro: safe.intros)
  qed
next
  case (safe_tok t s)
  show ?case
  proof (cases s rule: rev_cases)
    case Nil
    with safe_tok.prems safe_tok.hyps(1) have "t = a @ [c]" by simp
    with safe_tok.prems(2) safe_tok.hyps(1) show ?thesis by force
  next
    case (snoc s' x)
    with safe_tok.prems(1) have "x = c" "a = t @ s'" by auto
    with safe_tok.IH[of s'] snoc safe_tok.prems safe_tok.hyps show ?thesis
      by (auto intro: safe.intros)
  qed
qed

lemma safe_drop_run_end:
  assumes "safe T (a @ m)" "\<forall>c \<in> set m. \<forall>t \<in> set T. t = [] \<or> last t \<noteq> c"
  shows "safe T a"
  using assms
proof (induction m rule: rev_induct)
  case Nil
  then show ?case by simp
next
  case (snoc x m)
  from snoc.prems have s: "safe T ((a @ m) @ [x])" by simp
  from snoc.prems have "\<forall>t \<in> set T. t = [] \<or> last t \<noteq> x" by simp
  from safe_butlast[OF s refl this] have "safe T (a @ m)" .
  with snoc show ?case by simp
qed

section \<open>A stage keeps the invariant\<close>

lemma replace_from_nil:
  "ms r (p, [], Map.empty) = [] \<Longrightarrow> replace_from r tm p [] = []"
  by (simp add: replace_from.simps[of r tm p "[]"])

lemma replace_from_nomatch:
  "ms r (p, x # xs, Map.empty) = [] \<Longrightarrow>
   replace_from r tm p (x # xs) = x # replace_from r tm (Some x) xs"
  by (simp add: replace_from.simps[of r tm p "x # xs"])

lemma replace_from_match:
  "ms r (p, xs, Map.empty) = (p', ys, k) # rest \<Longrightarrow> length ys < length xs \<Longrightarrow>
   replace_from r tm p xs = GetSubstitution tm k @ replace_from r tm p' ys"
  by (simp add: replace_from.simps[of r tm p xs])

lemma replace_from_safe:
  assumes c: "copies r tm T" and s: "sound r tm T T'" and sub: "set T \<subseteq> set T'"
    and ne: "[] \<notin> set T" and "safe T xs"
  shows "safe T' (replace_from r tm p xs)"
  using \<open>safe T xs\<close>
proof (induction "length xs" arbitrary: xs p rule: less_induct)
  case less
  show ?case
  proof (cases "ms r (p, xs, Map.empty)")
    case (Cons q rest)
    obtain p' ys k where q: "q = (p', ys, k)" by (cases q)
    with Cons have "(p', ys, k) \<in> set (ms r (p, xs, Map.empty))" by simp
    with s less.prems have l: "length ys < length xs" and g: "safe T' (GetSubstitution tm k)"
      and y: "safe T ys" unfolding sound_def by blast+
    from less.hyps[OF l y] have "safe T' (replace_from r tm p' ys)" .
    with g have "safe T' (GetSubstitution tm k @ replace_from r tm p' ys)" by (rule safe_append)
    with replace_from_match[of r p xs p' ys k rest tm] Cons q l show ?thesis by simp
  next
    case Nil
    from less.prems show ?thesis
    proof (cases rule: safe.cases)
      case safe_nil
      with Nil show ?thesis by (simp add: replace_from_nil safe.safe_nil)
    next
      case (safe_chr c s')
      with Nil have "replace_from r tm p xs = c # replace_from r tm (Some c) s'"
        by (simp add: replace_from_nomatch)
      moreover from safe_chr less.hyps[of s' "Some c"] have "safe T' (replace_from r tm (Some c) s')"
        by simp
      ultimately show ?thesis using safe_chr by (simp add: safe.safe_chr)
    next
      case (safe_tok t s')
      with ne have tne: "t \<noteq> []" by auto
      from c safe_tok Nil have "replace_from r tm p xs = t @ replace_from r tm (prev p t) s'"
        unfolding copies_def by blast
      moreover from safe_tok tne less.hyps[of s' "prev p t"]
      have "safe T' (replace_from r tm (prev p t) s')" by simp
      moreover from safe_tok sub have "t \<in> set T'" by blast
      ultimately show ?thesis by (simp add: safe.safe_tok)
    qed
  qed
qed

lemma replace_safe:
  assumes "copies r tm T" "sound r tm T T'" "set T \<subseteq> set T'" "[] \<notin> set T" "safe T xs"
  shows "safe T' (replace r tm xs)"
  unfolding replace_def using assms by (rule replace_from_safe)

lemma copy_token:
  assumes "starts r S" "inner_free S t" "t \<noteq> []" "ms r (p, t @ rest, Map.empty) = []"
  shows "replace_from r tm p (t @ rest) = t @ replace_from r tm (prev p t) rest"
  using assms(2-)
proof (induction t arbitrary: p)
  case Nil
  then show ?case by simp
next
  case (Cons a t)
  show ?case
  proof (cases t)
    case Nil
    with Cons.prems show ?thesis by (simp add: replace_from_nomatch)
  next
    case (Cons b t')
    from Cons.prems Cons have nS: "\<not> S (Some a) b" by simp
    have "ms r (Some a, t @ rest, Map.empty) = []"
    proof (cases "ms r (Some a, t @ rest, Map.empty)")
      case (Cons q qs)
      then have "q \<in> set (ms r (Some a, b # t' @ rest, Map.empty))"
        using \<open>t = b # t'\<close> by simp
      with assms(1) have "S (Some a) b" unfolding starts_def by blast
      with nS show ?thesis by simp
    qed simp
    with Cons.IH[of "Some a"] Cons Cons.prems
    have "replace_from r tm (Some a) (t @ rest) = t @ replace_from r tm (prev (Some a) t) rest"
      by simp
    with Cons.prems Cons show ?thesis by (simp add: replace_from_nomatch)
  qed
qed

lemma copies_by_start:
  assumes "starts r S" "list_all (inner_free S) T" "[] \<notin> set T"
  shows "copies r tm T"
  unfolding copies_def using assms copy_token[of r S]
  by (metis (no_types, lifting) list_all_iff)

section \<open>The tokens\<close>

lemma tokens1_units: "t \<in> set tokens1 \<Longrightarrow> c \<in> set t \<Longrightarrow> unit1 c"
  unfolding tokens1_def entities_def block_tags_def unit1_def js_def
  by (simp, elim disjE; simp; elim disjE; simp)

lemma tokens1_nonempty: "[] \<notin> set tokens1"
  by (simp add: tokens1_def entities_def block_tags_def js_def)

lemma tokens2_nonempty: "[] \<notin> set tokens2"
  by (simp add: tokens2_def tokens1_def entities_def block_tags_def anchor_tags_def js_def)

lemma tokens1_sub_tokens2: "set tokens1 \<subseteq> set tokens2"
  by (simp add: tokens2_def)

lemma not_T1_unit_split:
  assumes "safe tokens1 (a @ c # b)" "\<not> unit1 c"
  shows "safe tokens1 a \<and> safe tokens1 b"
proof -
  from assms(2) have n: "\<forall>t \<in> set tokens1. c \<notin> set t" using tokens1_units by blast
  from safe_split[OF assms(1) refl n] have "safe tokens1 a" "safe tokens1 (c # b)" by simp_all
  moreover from n have "\<forall>t \<in> set tokens1. t = [] \<or> hd t \<noteq> c"
    by (metis hd_in_set)
  ultimately show ?thesis using safe_tl[of tokens1 "c # b" c b] by simp
qed

lemma white_not_tokens1: "isWhiteSpace c \<Longrightarrow> \<not> unit1 c"
  by (auto simp: unit1_def js_def isWhiteSpace_def isLineTerminator_def)

lemma lt_not_tokens1: "isLineTerminator c \<Longrightarrow> \<not> unit1 c"
  by (auto simp: unit1_def js_def isLineTerminator_def)

lemma subst_wrap:
  "GetSubstitution (wrap a b) k = js a @ (case k 1 of None \<Rightarrow> [] | Some s \<Rightarrow> s) @ js b"
  by (simp add: GetSubstitution_def wrap_def)

lemma safe_wrap:
  assumes "js a \<in> set T" "js b \<in> set T" "safe T s"
  shows "safe T (js a @ s @ js b)"
  using assms by (blast intro: safe_append safe_token)

section \<open>Single code units\<close>

lemma starts_Chr: "starts (Chr c) (\<lambda>p x. x = c)"
  by (auto simp: starts_def in_Chr)

lemma sound_Chr:
  assumes "\<not> unit1 c" "safe T' t"
  shows "sound (Chr c) [Lit t] tokens1 T'"
  unfolding sound_def
proof (intro allI impI, elim conjE)
  fix p xs p' ys k
  assume s: "safe tokens1 xs" and "(p', ys, k) \<in> set (ms (Chr c) (p, xs, Map.empty))"
  then have xs: "xs = c # ys" by (auto simp: in_Chr)
  with s not_T1_unit_split[of "[]" c ys] assms(1) have "safe tokens1 ys" by simp
  with xs assms(2) show "length ys < length xs \<and> safe T' (GetSubstitution [Lit t] k) \<and> safe tokens1 ys"
    by (simp add: GetSubstitution_def)
qed

section \<open>Headings\<close>

lemma heading_shape:
  assumes "q \<in> set (ms (re_heading marks) (p, xs, k))"
  shows "\<exists>cap ys p' k'. xs = js marks @ cap @ ys \<and> q = (p', ys, k') \<and> k' 1 = Some cap \<and>
           (ys = [] \<or> isLineTerminator (hd ys)) \<and> (p = None \<or> (\<exists>c. p = Some c \<and> isLineTerminator c))"
proof -
  from assms obtain st1 st2 st3 where
    1: "st1 \<in> set (ms Bol (p, xs, k))" and 2: "st2 \<in> set (ms (lit marks) st1)" and
    3: "st3 \<in> set (ms (Grp 1 (Star dot)) st2)" and 4: "q \<in> set (ms Eol st3)"
    unfolding re_heading_def by (auto simp: in_Seq)
  from 1 have st1: "st1 = (p, xs, k)" and pb: "p = None \<or> (\<exists>c. p = Some c \<and> isLineTerminator c)"
    by (auto simp: in_Bol split: option.splits)
  from 2 st1 obtain xs1 where xs1: "xs = js marks @ xs1" and st2: "st2 = (prev p (js marks), xs1, k)"
    by (auto simp: in_lit)
  from 3 st2 obtain m ys where m: "xs1 = m @ ys" and
    st3: "st3 = (prev (prev p (js marks)) m, ys, k(1 \<mapsto> m))"
    unfolding dot_def by (auto simp: in_Grp in_Star_Cls)
  from 4 st3 have "q = st3" "ys = [] \<or> isLineTerminator (hd ys)"
    by (auto simp: in_Eol split: list.splits)
  with st3 xs1 m pb show ?thesis by auto
qed

lemma starts_heading:
  "starts (re_heading marks) (\<lambda>p x. p = None \<or> (\<exists>c. p = Some c \<and> isLineTerminator c))"
  unfolding starts_def using heading_shape by blast

lemma sound_heading:
  assumes "js marks = m0 @ [c]" "\<not> unit1 c" "js a \<in> set tokens1" "js b \<in> set tokens1"
  shows "sound (re_heading marks) (wrap a b) tokens1 tokens1"
  unfolding sound_def
proof (intro allI impI, elim conjE)
  fix p xs p' ys k
  assume s: "safe tokens1 xs" and "(p', ys, k) \<in> set (ms (re_heading marks) (p, xs, Map.empty))"
  from heading_shape[OF this(2)] obtain cap where
    xs: "xs = js marks @ cap @ ys" and k: "k 1 = Some cap" and e: "ys = [] \<or> isLineTerminator (hd ys)"
    by auto
  from s xs assms(1) have "safe tokens1 (m0 @ c # (cap @ ys))" by simp
  from not_T1_unit_split[OF this assms(2)] have "safe tokens1 (cap @ ys)" by simp
  moreover from e have "ys = [] \<or> (\<forall>t \<in> set tokens1. hd ys \<notin> set t)"
    using lt_not_tokens1 tokens1_units by blast
  ultimately have "safe tokens1 cap" "safe tokens1 ys" using safe_split_end by blast+
  moreover from xs assms(1) have "length ys < length xs" by simp
  ultimately show "length ys < length xs \<and> safe tokens1 (GetSubstitution (wrap a b) k) \<and> safe tokens1 ys"
    using k assms(3,4) by (simp add: subst_wrap safe_wrap)
qed

lemma strip_marks:
  assumes "safe tokens1 (m @ ys)" "\<forall>c \<in> set m. \<not> unit1 c"
  shows "safe tokens1 ys"
  using assms
proof (induction m)
  case Nil
  then show ?case by simp
next
  case (Cons a m)
  from Cons.prems not_T1_unit_split[of "[]" a "m @ ys"] have "safe tokens1 (m @ ys)" by simp
  with Cons show ?case by simp
qed

section \<open>Marked spans\<close>

lemma span_shape:
  assumes "q \<in> set (ms (re_span mark (Cls P)) (p, xs, k))"
  shows "\<exists>cap ys p' k'. xs = js mark @ cap @ js mark @ ys \<and> q = (p', ys, k') \<and> k' 1 = Some cap"
proof -
  from assms obtain st1 st2 where
    1: "st1 \<in> set (ms (lit mark) (p, xs, k))" and
    2: "st2 \<in> set (ms (Grp 1 (Lazy (Cls P))) st1)" and 3: "q \<in> set (ms (lit mark) st2)"
    unfolding re_span_def by (auto simp: in_Seq)
  from 1 obtain xs1 where xs1: "xs = js mark @ xs1" and st1: "st1 = (prev p (js mark), xs1, k)"
    by (auto simp: in_lit)
  from 2 st1 obtain m xs2 where m: "xs1 = m @ xs2" and
    st2: "st2 = (prev (prev p (js mark)) m, xs2, k(1 \<mapsto> m))"
    by (auto simp: in_Grp in_Lazy_Cls)
  from 3 st2 obtain ys where "xs2 = js mark @ ys" "q = (prev (prev (prev p (js mark)) m) (js mark), ys, k(1 \<mapsto> m))"
    by (auto simp: in_lit)
  with xs1 m show ?thesis by auto
qed

lemma starts_span:
  "js mark \<noteq> [] \<Longrightarrow> starts (re_span mark (Cls P)) (\<lambda>p x. x = hd (js mark))"
  unfolding starts_def
proof (intro allI impI)
  fix p x xs q
  assume "js mark \<noteq> []" "q \<in> set (ms (re_span mark (Cls P)) (p, x # xs, Map.empty))"
  from span_shape[OF this(2)] obtain cap ys where "x # xs = js mark @ cap @ js mark @ ys" by blast
  with \<open>js mark \<noteq> []\<close> show "x = hd (js mark)" by (cases "js mark") auto
qed

lemma sound_span:
  assumes "js mark \<noteq> []" "\<forall>c \<in> set (js mark). \<not> unit1 c" "safe tokens1 (js a)" "safe tokens1 (js b)"
  shows "sound (re_span mark (Cls P)) (wrap a b) tokens1 tokens1"
  unfolding sound_def
proof (intro allI impI, elim conjE)
  fix p xs p' ys k
  assume s: "safe tokens1 xs" and "(p', ys, k) \<in> set (ms (re_span mark (Cls P)) (p, xs, Map.empty))"
  from span_shape[OF this(2)] obtain cap where
    xs: "xs = js mark @ cap @ js mark @ ys" and k: "k 1 = Some cap" by auto
  from s xs have "safe tokens1 (cap @ js mark @ ys)" using strip_marks[OF _ assms(2)] by simp
  moreover obtain c m1 where m: "js mark = c # m1" using assms(1) by (cases "js mark") auto
  ultimately have "safe tokens1 (cap @ c # (m1 @ ys))" by simp
  moreover from m assms(2) have c: "\<not> unit1 c" and m1: "\<forall>c \<in> set m1. \<not> unit1 c" by simp_all
  ultimately have "safe tokens1 cap" "safe tokens1 (m1 @ ys)" using not_T1_unit_split by blast+
  with m1 have "safe tokens1 cap" "safe tokens1 ys" using strip_marks by blast+
  moreover from xs assms(1) have "length ys < length xs" by simp
  ultimately show "length ys < length xs \<and> safe tokens1 (GetSubstitution (wrap a b) k) \<and> safe tokens1 ys"
    using k assms(3,4) by (simp add: subst_wrap safe_append)
qed

section \<open>List items\<close>

lemma ms_suffix:
  "q \<in> set (ms r st) \<Longrightarrow> \<exists>m. fst (snd st) = m @ fst (snd q)"
proof (induction r st arbitrary: q rule: ms.induct)
  case (1 c p xs k)
  then obtain ys where "xs = c # ys" "q = (Some c, ys, k)" unfolding in_Chr by blast
  then have "fst (snd (p, xs, k)) = [c] @ fst (snd q)" by simp
  then show ?case by blast
next
  case (2 P p xs k)
  then obtain x ys where "xs = x # ys" "q = (Some x, ys, k)" unfolding in_Cls by blast
  then have "fst (snd (p, xs, k)) = [x] @ fst (snd q)" by simp
  then show ?case by blast
next
  case (3 p xs k)
  then have "fst (snd (p, xs, k)) = [] @ fst (snd q)" by simp
  then show ?case by blast
next
  case (4 a b p xs k)
  from "4.prems" obtain st1 where st1: "st1 \<in> set (ms a (p, xs, k))" and q: "q \<in> set (ms b st1)"
    unfolding in_Seq by blast
  from "4.IH"(1)[OF st1] obtain m1 where "xs = m1 @ fst (snd st1)" by auto
  moreover from "4.IH"(2)[OF st1 q] obtain m2 where "fst (snd st1) = m2 @ fst (snd q)" by auto
  ultimately have "fst (snd (p, xs, k)) = (m1 @ m2) @ fst (snd q)" by simp
  then show ?case by blast
next
  case (5 a b p xs k)
  from "5.prems" have "q \<in> set (ms a (p, xs, k)) \<or> q \<in> set (ms b (p, xs, k))" by simp
  with "5.IH" show ?case by blast
next
  case (6 a p xs k)
  from "6.prems" consider "q = (p, xs, k)"
    | st1 where "st1 \<in> set (filter (advanced xs) (ms a (p, xs, k)))" "q \<in> set (ms (Star a) st1)"
    unfolding ms.simps(6) by auto
  then show ?case
  proof cases
    case 1
    then have "fst (snd (p, xs, k)) = [] @ fst (snd q)" by simp
    then show ?thesis by blast
  next
    case 2
    from 2(1) have "st1 \<in> set (ms a (p, xs, k))" by simp
    from "6.IH"(1)[OF this] obtain m1 where "xs = m1 @ fst (snd st1)" by auto
    moreover from "6.IH"(2)[OF 2] obtain m2 where "fst (snd st1) = m2 @ fst (snd q)" by auto
    ultimately have "fst (snd (p, xs, k)) = (m1 @ m2) @ fst (snd q)" by simp
    then show ?thesis by blast
  qed
next
  case (7 a p xs k)
  from "7.prems" consider "q = (p, xs, k)"
    | st1 where "st1 \<in> set (filter (advanced xs) (ms a (p, xs, k)))" "q \<in> set (ms (Lazy a) st1)"
    unfolding ms.simps(7) by auto
  then show ?case
  proof cases
    case 1
    then have "fst (snd (p, xs, k)) = [] @ fst (snd q)" by simp
    then show ?thesis by blast
  next
    case 2
    from 2(1) have "st1 \<in> set (ms a (p, xs, k))" by simp
    from "7.IH"(1)[OF this] obtain m1 where "xs = m1 @ fst (snd st1)" by auto
    moreover from "7.IH"(2)[OF 2] obtain m2 where "fst (snd st1) = m2 @ fst (snd q)" by auto
    ultimately have "fst (snd (p, xs, k)) = (m1 @ m2) @ fst (snd q)" by simp
    then show ?thesis by blast
  qed
next
  case (8 n a p xs k)
  from "8.prems" obtain p' ys k' where m: "(p', ys, k') \<in> set (ms a (p, xs, k))"
    and q: "q = (p', ys, k'(n \<mapsto> take (length xs - length ys) xs))"
    unfolding in_Grp by blast
  from "8.IH"[OF m] q show ?case by simp
next
  case (9 p xs k)
  then have "q = (p, xs, k)" unfolding in_Bol by blast
  then have "fst (snd (p, xs, k)) = [] @ fst (snd q)" by simp
  then show ?case by blast
next
  case (10 p xs k)
  then have "q = (p, xs, k)" unfolding in_Eol by blast
  then have "fst (snd (p, xs, k)) = [] @ fst (snd q)" by simp
  then show ?case by blast
next
  case (11 a p xs k)
  then have "q = (p, xs, k)" unfolding in_NotAhead by blast
  then have "fst (snd (p, xs, k)) = [] @ fst (snd q)" by simp
  then show ?case by blast
qed

lemma item_shape:
  assumes "q \<in> set (ms (seqs [Bol, A, Plus space, Grp 1 (Star dot), Eol]) (p, xs, k))"
  shows "\<exists>pre w cap ys p' k'. xs = pre @ w # cap @ ys \<and> isWhiteSpace w \<and> q = (p', ys, k') \<and>
           k' 1 = Some cap \<and> (ys = [] \<or> isLineTerminator (hd ys)) \<and>
           (p = None \<or> (\<exists>c. p = Some c \<and> isLineTerminator c))"
proof -
  from assms obtain st1 st2 st3 st4 where
    1: "st1 \<in> set (ms Bol (p, xs, k))" and 2: "st2 \<in> set (ms A st1)" and
    3: "st3 \<in> set (ms (Plus space) st2)" and
    4: "st4 \<in> set (ms (Grp 1 (Star dot)) st3)" and 5: "q \<in> set (ms Eol st4)"
    by (auto simp: in_Seq)
  from 1 have st1: "st1 = (p, xs, k)" and pb: "p = None \<or> (\<exists>c. p = Some c \<and> isLineTerminator c)"
    by (auto simp: in_Bol split: option.splits)
  obtain p2 xs2 k2 where st2: "st2 = (p2, xs2, k2)" by (cases st2)
  from ms_suffix[OF 2] st1 st2 obtain pre where pre: "xs = pre @ xs2" by auto
  from 3 st2 obtain ws xs3 where ws: "xs2 = ws @ xs3" "ws \<noteq> []" "\<forall>c \<in> set ws. isWhiteSpace c"
    and st3: "st3 = (Some (last ws), xs3, k2)"
    unfolding space_def by (auto simp: in_Plus_Cls)
  from 4 st3 obtain m ys where m: "xs3 = m @ ys" and
    st4: "st4 = (prev (Some (last ws)) m, ys, k2(1 \<mapsto> m))"
    unfolding dot_def by (auto simp: in_Grp in_Star_Cls)
  from 5 st4 have q: "q = st4" "ys = [] \<or> isLineTerminator (hd ys)"
    by (auto simp: in_Eol split: list.splits)
  from ws have "ws = butlast ws @ [last ws]" "isWhiteSpace (last ws)" by simp_all
  with pre ws(1) m have "xs = (pre @ butlast ws) @ last ws # m @ ys"
    by (metis append.assoc append_Cons append_Nil)
  with \<open>isWhiteSpace (last ws)\<close> q st4 pb show ?thesis by auto
qed

lemma starts_item:
  "starts (seqs [Bol, A, Plus space, Grp 1 (Star dot), Eol])
     (\<lambda>p x. p = None \<or> (\<exists>c. p = Some c \<and> isLineTerminator c))"
  unfolding starts_def using item_shape by blast

lemma sound_item:
  "sound (seqs [Bol, A, Plus space, Grp 1 (Star dot), Eol]) (wrap ''<li>'' ''</li>'') tokens1 tokens1"
  unfolding sound_def
proof (intro allI impI, elim conjE)
  fix p xs p' ys k
  assume s: "safe tokens1 xs" and
    "(p', ys, k) \<in> set (ms (seqs [Bol, A, Plus space, Grp 1 (Star dot), Eol]) (p, xs, Map.empty))"
  from item_shape[OF this(2)] obtain pre w cap where
    xs: "xs = pre @ w # cap @ ys" and w: "isWhiteSpace w" and k: "k 1 = Some cap"
    and e: "ys = [] \<or> isLineTerminator (hd ys)"
    by auto
  from s xs w have "safe tokens1 (cap @ ys)" using not_T1_unit_split white_not_tokens1 by blast
  moreover from e have "ys = [] \<or> (\<forall>t \<in> set tokens1. hd ys \<notin> set t)"
    using lt_not_tokens1 tokens1_units by blast
  ultimately have "safe tokens1 cap" "safe tokens1 ys" using safe_split_end by blast+
  moreover from xs have "length ys < length xs" by simp
  moreover have "js ''<li>'' \<in> set tokens1" "js ''</li>'' \<in> set tokens1"
    by (simp_all add: tokens1_def block_tags_def)
  ultimately show "length ys < length xs \<and> safe tokens1 (GetSubstitution (wrap ''<li>'' ''</li>'') k) \<and> safe tokens1 ys"
    using k by (simp add: subst_wrap safe_wrap)
qed

section \<open>Runs of list items\<close>

lemma items_shape:
  assumes "q \<in> set (ms re_items (p, xs, k))"
  shows "\<exists>mid ys p' k'. xs = js ''<li>'' @ mid @ js ''</li>'' @ ys \<and> q = (p', ys, k') \<and>
           k' 1 = Some (js ''<li>'' @ mid @ js ''</li>'')"
proof -
  from assms obtain p' ys k0 where
    i: "(p', ys, k0) \<in> set (ms (seqs [lit ''<li>'', Star dotAll, lit ''</li>'']) (p, xs, k))"
    and q: "q = (p', ys, k0(1 \<mapsto> take (length xs - length ys) xs))"
    unfolding re_items_def in_Grp by blast
  from i obtain st1 st2 where
    1: "st1 \<in> set (ms (lit ''<li>'') (p, xs, k))" and
    2: "st2 \<in> set (ms (Star dotAll) st1)" and 3: "(p', ys, k0) \<in> set (ms (lit ''</li>'') st2)"
    by (auto simp: in_Seq)
  from 1 obtain xs1 where xs1: "xs = js ''<li>'' @ xs1" and st1: "st1 = (prev p (js ''<li>''), xs1, k)"
    by (auto simp: in_lit)
  from 2 st1 obtain mid xs2 where m: "xs1 = mid @ xs2" and
    st2: "st2 = (prev (prev p (js ''<li>'')) mid, xs2, k)"
    by (auto simp: dotAll_def in_Star_Cls)
  from 3 st2 have "xs2 = js ''</li>'' @ ys" by (auto simp: in_lit)
  with xs1 m have xs: "xs = (js ''<li>'' @ mid @ js ''</li>'') @ ys" by simp
  then have "take (length xs - length ys) xs = js ''<li>'' @ mid @ js ''</li>''" by simp
  with q xs show ?thesis by simp
qed

lemma starts_items: "starts re_items (\<lambda>p x. x = 0x3C)"
  unfolding starts_def
proof (intro allI impI)
  fix p x xs q
  assume "q \<in> set (ms re_items (p, x # xs, Map.empty))"
  from items_shape[OF this] show "x = 0x3C" by (auto simp: js_def)
qed

lemma gt_only_last_tokens1: "\<forall>t \<in> set tokens1. 0x3E \<notin> set (butlast t)"
  by (simp add: tokens1_def entities_def block_tags_def js_def)

lemma sound_items:
  assumes "js a \<in> set tokens1" "js b \<in> set tokens1"
  shows "sound re_items (wrap a b) tokens1 tokens1"
  unfolding sound_def
proof (intro allI impI, elim conjE)
  fix p xs p' ys k
  assume s: "safe tokens1 xs" and "(p', ys, k) \<in> set (ms re_items (p, xs, Map.empty))"
  from items_shape[OF this(2)] obtain mid where
    xs: "xs = js ''<li>'' @ mid @ js ''</li>'' @ ys" and
    k: "k 1 = Some (js ''<li>'' @ mid @ js ''</li>'')" by auto
  have e: "js ''</li>'' = js ''</li'' @ [0x3E]" by (simp add: js_def)
  from xs e have "xs = (js ''<li>'' @ mid @ js ''</li'') @ 0x3E # ys" by simp
  from safe_split_after[OF s this _ gt_only_last_tokens1]
  have "safe tokens1 ((js ''<li>'' @ mid @ js ''</li'') @ [0x3E])" "safe tokens1 ys" by (simp_all add: plain_def)
  with e have sm: "safe tokens1 (js ''<li>'' @ mid @ js ''</li>'')" and sy: "safe tokens1 ys" by simp_all
  from safe_wrap[OF assms sm] k have "safe tokens1 (GetSubstitution (wrap a b) k)"
    by (simp add: subst_wrap)
  moreover from xs have "length ys < length xs" by (simp add: js_def)
  ultimately show "length ys < length xs \<and> safe tokens1 (GetSubstitution (wrap a b) k) \<and> safe tokens1 ys"
    using sy by simp
qed

section \<open>Links\<close>

lemma url_shape:
  assumes "q \<in> set (ms re_url (p, xs, k))"
  shows "\<exists>u ys p'. xs = u @ ys \<and> url_ok u \<and> q = (p', ys, k)"
proof -
  from assms obtain st1 st2 st3 where
    1: "st1 \<in> set (ms (lit ''http'') (p, xs, k))" and
    2: "st2 \<in> set (ms (Opt (Chr 0x73)) st1)" and
    3: "st3 \<in> set (ms (lit ''://'') st2)" and
    4: "q \<in> set (ms (Plus (Cls (\<lambda>c. \<not> (isWhiteSpace c \<or> c = 0x29)))) st3)"
    unfolding re_url_def by (auto simp: in_Seq)
  from 1 obtain xs1 p1 where xs1: "xs = js ''http'' @ xs1" and st1: "st1 = (p1, xs1, k)"
    by (auto simp: in_lit)
  from 2 st1 have "(\<exists>xs2. xs1 = 0x73 # xs2 \<and> st2 = (Some 0x73, xs2, k)) \<or> st2 = (p1, xs1, k)"
    by (auto simp: Opt_def)
  then consider xs2 where "xs1 = 0x73 # xs2" "st2 = (Some 0x73, xs2, k)" | "st2 = (p1, xs1, k)"
    by blast
  then obtain s xs2 p2 where xs2: "xs1 = s @ xs2" "s = [] \<or> s = [0x73]" and st2: "st2 = (p2, xs2, k)"
  proof cases
    case 1
    then have "xs1 = [0x73] @ xs2" by simp
    with 1 that show ?thesis by blast
  next
    case 2
    then have "xs1 = [] @ xs1" by simp
    with 2 that show ?thesis by blast
  qed
  from 3 st2 obtain xs3 p3 where xs3: "xs2 = js ''://'' @ xs3" and st3: "st3 = (p3, xs3, k)"
    by (auto simp: in_lit)
  from 4 st3 obtain v ys where v: "xs3 = v @ ys" "v \<noteq> []" "\<forall>c \<in> set v. \<not> (isWhiteSpace c \<or> c = 0x29)"
    and q: "q = (Some (last v), ys, k)"
    by (auto simp: in_Plus_Cls)
  from xs1 xs2 xs3 v(1) have "xs = (js ''http'' @ s @ js ''://'' @ v) @ ys" by simp
  moreover from xs2(2) have "js ''http'' @ s @ js ''://'' @ v = js ''http://'' @ v \<or>
                        js ''http'' @ s @ js ''://'' @ v = js ''https://'' @ v"
    by (auto simp: js_def)
  ultimately show ?thesis using v q unfolding url_ok_def by blast
qed

lemma link_shape:
  assumes "q \<in> set (ms re_link (p, xs, k))"
  shows "\<exists>l u ys p' k'. xs = 0x5B # l @ 0x5D # 0x28 # u @ 0x29 # ys \<and> q = (p', ys, k') \<and>
           k' 1 = Some l \<and> k' 2 = Some u \<and> l \<noteq> [] \<and> 0x5D \<notin> set l \<and> url_ok u"
proof -
  from assms obtain st1 st2 st3 st4 st5 where
    1: "st1 \<in> set (ms (Chr 0x5B) (p, xs, k))" and
    2: "st2 \<in> set (ms (Grp 1 (Plus (Cls (\<lambda>c. c \<noteq> 0x5D)))) st1)" and
    3: "st3 \<in> set (ms (Chr 0x5D) st2)" and
    4: "st4 \<in> set (ms (Chr 0x28) st3)" and
    5: "st5 \<in> set (ms (Grp 2 re_url) st4)" and
    6: "q \<in> set (ms (Chr 0x29) st5)"
    unfolding re_link_def seqs.simps in_Seq by blast
  from 1 obtain xs1 where xs1: "xs = 0x5B # xs1" and st1: "st1 = (Some 0x5B, xs1, k)"
    unfolding in_Chr by blast
  from 2 obtain p2 xs2 k2 where
    i2: "(p2, xs2, k2) \<in> set (ms (Plus (Cls (\<lambda>c. c \<noteq> 0x5D))) (Some 0x5B, xs1, k))" and
    st2': "st2 = (p2, xs2, k2(1 \<mapsto> take (length xs1 - length xs2) xs1))"
    unfolding st1 in_Grp by blast
  from i2 obtain l where l: "xs1 = l @ xs2" "l \<noteq> []" "\<forall>c \<in> set l. c \<noteq> 0x5D"
    and pk: "p2 = Some (last l)" "k2 = k"
    by (auto simp: in_Plus_Cls)
  from l(1) have "take (length xs1 - length xs2) xs1 = l" by simp
  with st2' pk have st2: "st2 = (Some (last l), xs2, k(1 \<mapsto> l))" by simp
  from 3 obtain xs3 where xs3: "xs2 = 0x5D # xs3" and st3: "st3 = (Some 0x5D, xs3, k(1 \<mapsto> l))"
    unfolding st2 in_Chr by blast
  from 4 obtain xs4 where xs4: "xs3 = 0x28 # xs4" and st4: "st4 = (Some 0x28, xs4, k(1 \<mapsto> l))"
    unfolding st3 in_Chr by blast
  from 5 obtain p5 xs5 k5 where
    i: "(p5, xs5, k5) \<in> set (ms re_url (Some 0x28, xs4, k(1 \<mapsto> l)))"
    and st5: "st5 = (p5, xs5, k5(2 \<mapsto> take (length xs4 - length xs5) xs4))"
    unfolding st4 in_Grp by blast
  from url_shape[OF i] obtain u where u: "xs4 = u @ xs5" "url_ok u" "k5 = k(1 \<mapsto> l)" by auto
  then have "take (length xs4 - length xs5) xs4 = u" by simp
  with st5 u have st5': "st5 = (p5, xs5, k(1 \<mapsto> l, 2 \<mapsto> u))" by simp
  from 6 obtain ys where ys: "xs5 = 0x29 # ys" and q: "q = (Some 0x29, ys, k(1 \<mapsto> l, 2 \<mapsto> u))"
    unfolding st5' in_Chr by blast
  from xs1 l(1) xs3 xs4 u(1) ys have "xs = 0x5B # l @ 0x5D # 0x28 # u @ 0x29 # ys" by simp
  with q l u show ?thesis by auto
qed

lemma starts_link: "starts re_link (\<lambda>p x. x = 0x5B)"
  unfolding starts_def
proof (intro allI impI)
  fix p x xs q
  assume "q \<in> set (ms re_link (p, x # xs, Map.empty))"
  from link_shape[OF this] show "x = 0x5B" by auto
qed

lemma subst_anchor:
  "GetSubstitution anchor k =
     js ''<a href=\"'' @ (case k 2 of None \<Rightarrow> [] | Some s \<Rightarrow> s) @
     js ''\" target=\"_blank\" rel=\"noopener noreferrer\">'' @
     (case k 1 of None \<Rightarrow> [] | Some s \<Rightarrow> s) @ js ''</a>''"
  by (simp add: GetSubstitution_def anchor_def)

lemma sound_link: "sound re_link anchor tokens1 tokens2"
  unfolding sound_def
proof (intro allI impI, elim conjE)
  fix p xs p' ys k
  assume s: "safe tokens1 xs" and "(p', ys, k) \<in> set (ms re_link (p, xs, Map.empty))"
  from link_shape[OF this(2)] obtain l u where
    xs: "xs = 0x5B # l @ 0x5D # 0x28 # u @ 0x29 # ys" and k: "k 1 = Some l" "k 2 = Some u" by auto
  have n: "\<not> unit1 0x5B" "\<not> unit1 0x5D" "\<not> unit1 0x28" "\<not> unit1 0x29"
    by (simp_all add: unit1_def js_def)
  from s xs have "safe tokens1 ([] @ 0x5B # (l @ 0x5D # 0x28 # u @ 0x29 # ys))" by simp
  from not_T1_unit_split[OF this n(1)] have "safe tokens1 (l @ 0x5D # (0x28 # u @ 0x29 # ys))" by simp
  from not_T1_unit_split[OF this n(2)] have sl: "safe tokens1 l" and "safe tokens1 ([] @ 0x28 # (u @ 0x29 # ys))"
    by simp_all
  from not_T1_unit_split[OF this(2) n(3)] have "safe tokens1 (u @ 0x29 # ys)" by simp
  from not_T1_unit_split[OF this n(4)] have su: "safe tokens1 u" and sy: "safe tokens1 ys" by simp_all
  have t: "js ''<a href=\"'' \<in> set tokens2" "js ''\" target=\"_blank\" rel=\"noopener noreferrer\">'' \<in> set tokens2"
    "js ''</a>'' \<in> set tokens2"
    by (simp_all add: tokens2_def tokens1_def anchor_tags_def block_tags_def)
  from sl su have "safe tokens2 l" "safe tokens2 u" using safe_mono tokens1_sub_tokens2 by blast+
  with t have "safe tokens2 (GetSubstitution anchor k)"
    unfolding subst_anchor k by (simp add: safe_append safe_token)
  moreover from xs have "length ys < length xs" by simp
  ultimately show "length ys < length xs \<and> safe tokens2 (GetSubstitution anchor k) \<and> safe tokens1 ys"
    using sy by simp
qed

lemma tokens2_units: "t \<in> set tokens2 \<Longrightarrow> c \<in> set t \<Longrightarrow> unit2 c"
  unfolding tokens2_def tokens1_def entities_def block_tags_def anchor_tags_def unit2_def js_def
  by (simp, elim disjE; simp; elim disjE; simp)

lemma lt_not_tokens2: "isLineTerminator c \<Longrightarrow> \<not> unit2 c"
  by (auto simp: unit2_def js_def isLineTerminator_def)

section \<open>Paragraphs\<close>

lemma paragraph_shape:
  assumes "q \<in> set (ms re_paragraph (p, xs, k))"
  shows "\<exists>cap ys p' k'. xs = cap @ ys \<and> cap \<noteq> [] \<and> q = (p', ys, k') \<and> k' 1 = Some cap \<and>
           (ys = [] \<or> isLineTerminator (hd ys)) \<and> (p = None \<or> (\<exists>c. p = Some c \<and> isLineTerminator c))"
proof -
  from assms obtain st1 st2 st3 where
    1: "st1 \<in> set (ms Bol (p, xs, k))" and 2: "st2 \<in> set (ms (NotAhead re_block_start) st1)" and
    3: "st3 \<in> set (ms (Grp 1 (Plus dot)) st2)" and 4: "q \<in> set (ms Eol st3)"
    unfolding re_paragraph_def seqs.simps in_Seq by blast
  from 1 have st1: "st1 = (p, xs, k)" and pb: "p = None \<or> (\<exists>c. p = Some c \<and> isLineTerminator c)"
    by (auto simp: in_Bol split: option.splits)
  from 2 have st2: "st2 = (p, xs, k)" unfolding st1 in_NotAhead by blast
  from 3 obtain p3 ys k3 where
    i: "(p3, ys, k3) \<in> set (ms (Plus dot) (p, xs, k))" and
    st3: "st3 = (p3, ys, k3(1 \<mapsto> take (length xs - length ys) xs))"
    unfolding st2 in_Grp by blast
  from i obtain m where m: "xs = m @ ys" "m \<noteq> []" and k3: "k3 = k"
    by (auto simp: dot_def in_Plus_Cls)
  from m have "take (length xs - length ys) xs = m" by simp
  with st3 k3 have st3': "st3 = (p3, ys, k(1 \<mapsto> m))" by simp
  from 4 have "q = st3" "ys = [] \<or> isLineTerminator (hd ys)"
    unfolding st3' by (auto simp: in_Eol split: list.splits)
  with st3' m pb show ?thesis by auto
qed

lemma starts_paragraph:
  "starts re_paragraph (\<lambda>p x. p = None \<or> (\<exists>c. p = Some c \<and> isLineTerminator c))"
  unfolding starts_def using paragraph_shape by blast

lemma sound_paragraph: "sound re_paragraph (wrap ''<p>'' ''</p>'') tokens2 tokens2"
  unfolding sound_def
proof (intro allI impI, elim conjE)
  fix p xs p' ys k
  assume s: "safe tokens2 xs" and "(p', ys, k) \<in> set (ms re_paragraph (p, xs, Map.empty))"
  from paragraph_shape[OF this(2)] obtain cap where
    xs: "xs = cap @ ys" "cap \<noteq> []" and k: "k 1 = Some cap"
    and e: "ys = [] \<or> isLineTerminator (hd ys)" by auto
  from e have "ys = [] \<or> (\<forall>t \<in> set tokens2. hd ys \<notin> set t)"
    using lt_not_tokens2 tokens2_units by blast
  with s xs have "safe tokens2 cap" "safe tokens2 ys" using safe_split_end by blast+
  moreover from xs have "length ys < length xs" by simp
  moreover have "js ''<p>'' \<in> set tokens2" "js ''</p>'' \<in> set tokens2"
    by (simp_all add: tokens2_def tokens1_def block_tags_def)
  ultimately show "length ys < length xs \<and> safe tokens2 (GetSubstitution (wrap ''<p>'' ''</p>'') k) \<and> safe tokens2 ys"
    using k by (simp add: subst_wrap safe_wrap)
qed

section \<open>White space\<close>

lemma white_not_first_tokens2: "isWhiteSpace c \<Longrightarrow> \<forall>t \<in> set tokens2. t = [] \<or> hd t \<noteq> c"
  by (auto simp: tokens2_def tokens1_def entities_def block_tags_def anchor_tags_def js_def
                 isWhiteSpace_def isLineTerminator_def)

lemma white_not_last_tokens2: "isWhiteSpace c \<Longrightarrow> \<forall>t \<in> set tokens2. t = [] \<or> last t \<noteq> c"
  by (auto simp: tokens2_def tokens1_def entities_def block_tags_def anchor_tags_def js_def
                 isWhiteSpace_def isLineTerminator_def)

lemma sound_space: "sound (Plus space) [Lit (js '' '')] tokens2 tokens2"
  unfolding sound_def
proof (intro allI impI, elim conjE)
  fix p xs p' ys k
  assume s: "safe tokens2 xs" and "(p', ys, k) \<in> set (ms (Plus space) (p, xs, Map.empty))"
  then obtain m where m: "xs = m @ ys" "m \<noteq> []" "\<forall>c \<in> set m. isWhiteSpace c"
    by (auto simp: space_def in_Plus_Cls)
  with s have "safe tokens2 ys" using safe_drop_run[of tokens2 m ys] white_not_first_tokens2 by blast
  moreover have "safe tokens2 (js '' '')" by (rule safe_plain_string) (simp add: js_def plain_def)
  moreover from m have "length ys < length xs" by simp
  ultimately show "length ys < length xs \<and> safe tokens2 (GetSubstitution [Lit (js '' '')] k) \<and> safe tokens2 ys"
    by (simp add: GetSubstitution_def)
qed

lemma starts_space: "starts (Plus space) (\<lambda>p x. isWhiteSpace x)"
  unfolding starts_def by (auto simp: space_def in_Plus_Cls Cons_eq_append_conv)

lemma space_skip:
  "\<not> isWhiteSpace x \<Longrightarrow>
   replace_from (Plus space) tm p (x # xs) = x # replace_from (Plus space) tm (Some x) xs"
  by (rule replace_from_nomatch) (simp add: Plus_def space_def)

lemma space_single:
  "\<not> isWhiteSpace y \<Longrightarrow>
   replace_from (Plus space) [Lit (js '' '')] p (0x20 # y # xs) =
     0x20 # replace_from (Plus space) [Lit (js '' '')] (Some 0x20) (y # xs)"
proof -
  assume "\<not> isWhiteSpace y"
  moreover have "isWhiteSpace 0x20" by (simp add: isWhiteSpace_def)
  ultimately have "ms (Plus space) (p, 0x20 # y # xs, Map.empty) = [(Some 0x20, y # xs, Map.empty)]"
    by (simp add: Plus_def space_def star_cls_cons)
  from replace_from_match[OF this] show ?thesis
    by (simp add: GetSubstitution_def js_def)
qed

section \<open>Tokens are copied\<close>

lemma inner_free_bol:
  "\<forall>a \<in> set t. \<not> isLineTerminator a \<Longrightarrow>
   inner_free (\<lambda>p x. p = None \<or> (\<exists>c. p = Some c \<and> isLineTerminator c)) t"
  by (induction t rule: induct_list012) auto

lemma inner_free_cls:
  "\<forall>x \<in> set (tl t). \<not> P x \<Longrightarrow> inner_free (\<lambda>p x. P x) t"
  by (induction t rule: induct_list012) auto

lemma copies_bol_tokens1:
  assumes "starts r (\<lambda>p x. p = None \<or> (\<exists>c. p = Some c \<and> isLineTerminator c))"
  shows "copies r tm tokens1"
proof (rule copies_by_start[OF assms _ tokens1_nonempty])
  show "list_all (inner_free (\<lambda>p x. p = None \<or> (\<exists>c. p = Some c \<and> isLineTerminator c))) tokens1"
    unfolding list_all_iff using inner_free_bol tokens1_units lt_not_tokens1 by blast
qed

lemma copies_bol_tokens2:
  assumes "starts r (\<lambda>p x. p = None \<or> (\<exists>c. p = Some c \<and> isLineTerminator c))"
  shows "copies r tm tokens2"
proof (rule copies_by_start[OF assms _ tokens2_nonempty])
  show "list_all (inner_free (\<lambda>p x. p = None \<or> (\<exists>c. p = Some c \<and> isLineTerminator c))) tokens2"
    unfolding list_all_iff using inner_free_bol tokens2_units lt_not_tokens2 by blast
qed

lemma copies_unit_tokens1:
  assumes "starts r (\<lambda>p x. x = c)" "\<not> unit1 c"
  shows "copies r tm tokens1"
proof (rule copies_by_start[OF assms(1) _ tokens1_nonempty])
  have "inner_free (\<lambda>p x. x = c) t" if "t \<in> set tokens1" for t
  proof (rule inner_free_cls, intro ballI)
    fix x assume "x \<in> set (tl t)"
    then have "x \<in> set t" by (cases t) auto
    with that tokens1_units assms(2) show "x \<noteq> c" by blast
  qed
  then show "list_all (inner_free (\<lambda>p x. x = c)) tokens1" unfolding list_all_iff by blast
qed

lemma lt_only_first_tokens1: "\<forall>t \<in> set tokens1. 0x3C \<notin> set (tl t)"
  by (simp add: tokens1_def entities_def block_tags_def js_def)

lemma copies_items: "copies re_items tm tokens1"
proof (rule copies_by_start[OF starts_items _ tokens1_nonempty])
  show "list_all (inner_free (\<lambda>p x. x = 0x3C)) tokens1"
    unfolding list_all_iff using inner_free_cls[of _ "\<lambda>x. x = 0x3C"] lt_only_first_tokens1 by blast
qed

lemma copies_append: "copies r tm (A @ B) \<longleftrightarrow> copies r tm A \<and> copies r tm B"
  unfolding copies_def by auto

lemma white_not_inner_tokens1: "t \<in> set tokens1 \<Longrightarrow> x \<in> set (tl t) \<Longrightarrow> \<not> isWhiteSpace x"
  using tokens1_units white_not_tokens1 by (metis list.sel(2) list.set_sel(2))

lemma copies_space: "copies (Plus space) [Lit (js '' '')] tokens2"
  unfolding tokens2_def copies_append
proof
  show "copies (Plus space) [Lit (js '' '')] tokens1"
  proof (rule copies_by_start[OF starts_space _ tokens1_nonempty])
    show "list_all (inner_free (\<lambda>p. isWhiteSpace)) tokens1"
      unfolding list_all_iff using inner_free_cls[of _ isWhiteSpace] white_not_inner_tokens1 by blast
  qed
next
  have w: "\<not> isWhiteSpace 34" "\<not> isWhiteSpace 60" "\<not> isWhiteSpace 61" "\<not> isWhiteSpace 62" "\<not> isWhiteSpace 95" "\<not> isWhiteSpace 97" "\<not> isWhiteSpace 98" "\<not> isWhiteSpace 101" "\<not> isWhiteSpace 102" "\<not> isWhiteSpace 103" "\<not> isWhiteSpace 104" "\<not> isWhiteSpace 107" "\<not> isWhiteSpace 108" "\<not> isWhiteSpace 110" "\<not> isWhiteSpace 111" "\<not> isWhiteSpace 112" "\<not> isWhiteSpace 114" "\<not> isWhiteSpace 116"
    by (simp_all add: isWhiteSpace_def isLineTerminator_def)
  show "copies (Plus space) [Lit (js '' '')] anchor_tags"
    unfolding copies_def anchor_tags_def
    by (simp add: js_def space_skip space_single[unfolded js_def, simplified] w)
qed

section \<open>Escaping\<close>

lemma replace_Chr_Lit:
  "replace_from (Chr c) [Lit t] p s = concat (map (\<lambda>x. if x = c then t else [x]) s)"
proof (induction s arbitrary: p)
  case Nil
  show ?case by (simp add: replace_from_nil)
next
  case (Cons x s)
  show ?case
  proof (cases "x = c")
    case True
    then have "ms (Chr c) (p, x # s, Map.empty) = [(Some x, s, Map.empty)]" by simp
    from replace_from_match[OF this] Cons[of "Some x"] True show ?thesis
      by (simp add: GetSubstitution_def)
  next
    case False
    then have "ms (Chr c) (p, x # s, Map.empty) = []" by simp
    from replace_from_nomatch[OF this] Cons[of "Some x"] False show ?thesis by simp
  qed
qed

lemma escaped_safe:
  "safe tokens1 (replace (Chr 0x3E) [Lit (js ''&gt;'')]
             (replace (Chr 0x3C) [Lit (js ''&lt;'')]
               (replace (Chr 0x26) [Lit (js ''&amp;'')] s)))"
  unfolding replace_def replace_Chr_Lit
proof (induction s)
  case Nil
  show ?case by (simp add: safe_nil)
next
  case (Cons x s)
  have e: "js ''&amp;'' \<in> set tokens1" "js ''&lt;'' \<in> set tokens1" "js ''&gt;'' \<in> set tokens1"
    by (simp_all add: tokens1_def entities_def)
  consider "x = 0x26" | "x = 0x3C" | "x = 0x3E" | "plain x" unfolding plain_def by blast
  then show ?case
  proof cases
    case 1
    with Cons safe_tok[OF e(1)] show ?thesis by (simp add: js_def)
  next
    case 2
    with Cons safe_tok[OF e(2)] show ?thesis by (simp add: js_def)
  next
    case 3
    with Cons safe_tok[OF e(3)] show ?thesis by (simp add: js_def)
  next
    case 4
    with Cons show ?thesis by (simp add: plain_def safe_chr)
  qed
qed

section \<open>Trimming\<close>

lemma trim_safe:
  assumes "safe tokens2 s"
  shows "safe tokens2 (trim s)"
proof -
  have "s = takeWhile isWhiteSpace s @ dropWhile isWhiteSpace s" by simp
  with assms have "safe tokens2 (takeWhile isWhiteSpace s @ dropWhile isWhiteSpace s)" by simp
  then have d: "safe tokens2 (dropWhile isWhiteSpace s)"
    by (rule safe_drop_run) (use white_not_first_tokens2 in \<open>metis set_takeWhileD\<close>)
  let ?d = "dropWhile isWhiteSpace s"
  have "rev ?d = takeWhile isWhiteSpace (rev ?d) @ dropWhile isWhiteSpace (rev ?d)" by simp
  then have "?d = rev (dropWhile isWhiteSpace (rev ?d)) @ rev (takeWhile isWhiteSpace (rev ?d))"
    by (metis rev_append rev_rev_ident)
  with d have "safe tokens2 (rev (dropWhile isWhiteSpace (rev ?d)) @ rev (takeWhile isWhiteSpace (rev ?d)))"
    by simp
  then have "safe tokens2 (rev (dropWhile isWhiteSpace (rev ?d)))"
    by (rule safe_drop_run_end) (use white_not_last_tokens2 in \<open>metis set_rev set_takeWhileD\<close>)
  then show ?thesis by (simp add: trim_def)
qed

section \<open>The whole pipeline\<close>

lemma tokens1_members:
  "js ''<h3>'' \<in> set tokens1" "js ''</h3>'' \<in> set tokens1" "js ''<h2>'' \<in> set tokens1" "js ''</h2>'' \<in> set tokens1"
  "js ''<h1>'' \<in> set tokens1" "js ''</h1>'' \<in> set tokens1" "js ''<strong>'' \<in> set tokens1"
  "js ''</strong>'' \<in> set tokens1" "js ''<em>'' \<in> set tokens1" "js ''</em>'' \<in> set tokens1"
  "js ''<code>'' \<in> set tokens1" "js ''</code>'' \<in> set tokens1" "js ''<pre>'' \<in> set tokens1"
  "js ''</pre>'' \<in> set tokens1" "js ''<br>'' \<in> set tokens1" "js ''<ul>'' \<in> set tokens1" "js ''</ul>'' \<in> set tokens1"
  "js ''<ol>'' \<in> set tokens1" "js ''</ol>'' \<in> set tokens1"
  by (simp_all add: tokens1_def block_tags_def)

lemma heading_stage:
  assumes "js marks = pre @ [0x20]" "js a \<in> set tokens1" "js b \<in> set tokens1" "safe tokens1 s"
  shows "safe tokens1 (replace (re_heading marks) (wrap a b) s)"
proof (rule replace_safe[OF _ _ subset_refl tokens1_nonempty assms(4)])
  show "copies (re_heading marks) (wrap a b) tokens1" by (rule copies_bol_tokens1[OF starts_heading])
  show "sound (re_heading marks) (wrap a b) tokens1 tokens1"
    by (rule sound_heading[OF assms(1) _ assms(2,3)]) (simp add: unit1_def js_def)
qed

lemma span_stage:
  assumes "js mark = c # m" "\<forall>x \<in> set (c # m). \<not> unit1 x" "safe tokens1 (js a)" "safe tokens1 (js b)" "safe tokens1 s"
  shows "safe tokens1 (replace (re_span mark (Cls P)) (wrap a b) s)"
proof (rule replace_safe[OF _ _ subset_refl tokens1_nonempty assms(5)])
  from assms(1) have ne: "js mark \<noteq> []" and h: "hd (js mark) = c" by simp_all
  from starts_span[OF ne, of P] h have "starts (re_span mark (Cls P)) (\<lambda>p x. x = c)" by simp
  moreover from assms(2) have "\<not> unit1 c" by simp
  ultimately show "copies (re_span mark (Cls P)) (wrap a b) tokens1" by (rule copies_unit_tokens1)
  from assms(1,2) have "\<forall>x \<in> set (js mark). \<not> unit1 x" by simp
  from sound_span[OF ne this assms(3,4)]
  show "sound (re_span mark (Cls P)) (wrap a b) tokens1 tokens1" .
qed

lemma item_stage:
  assumes "safe tokens1 s"
  shows "safe tokens1 (replace (seqs [Bol, A, Plus space, Grp 1 (Star dot), Eol]) (wrap ''<li>'' ''</li>'') s)"
  by (rule replace_safe[OF copies_bol_tokens1[OF starts_item] sound_item subset_refl tokens1_nonempty assms])

lemma items_stage:
  assumes "js a \<in> set tokens1" "js b \<in> set tokens1" "safe tokens1 s"
  shows "safe tokens1 (replace re_items (wrap a b) s)"
  by (rule replace_safe[OF copies_items sound_items[OF assms(1,2)] subset_refl tokens1_nonempty assms(3)])

lemma format_safe: "safe tokens2 (formatMessageText s)"
proof (cases "s = []")
  case True
  then show ?thesis by (simp add: formatMessageText_def safe_nil)
next
  case False
  define s3 where "s3 = replace (Chr 0x3E) [Lit (js ''&gt;'')]
             (replace (Chr 0x3C) [Lit (js ''&lt;'')]
               (replace (Chr 0x26) [Lit (js ''&amp;'')] s))"
  define s4 where "s4 = replace (re_heading ''### '') (wrap ''<h3>'' ''</h3>'') s3"
  define s5 where "s5 = replace (re_heading ''## '') (wrap ''<h2>'' ''</h2>'') s4"
  define s6 where "s6 = replace (re_heading ''# '') (wrap ''<h1>'' ''</h1>'') s5"
  define s7 where "s7 = replace (re_span ''**'' dot) (wrap ''<strong>'' ''</strong>'') s6"
  define s8 where "s8 = replace (re_span ''*'' dot) (wrap ''<em>'' ''</em>'') s7"
  define s9 where "s9 = replace (re_span ''`'' dot) (wrap ''<code>'' ''</code>'') s8"
  define s10 where "s10 = replace (re_span ''```'' (Cls (\<lambda>c. isWhiteSpace c \<or> \<not> isWhiteSpace c)))
                  (wrap ''<pre><code>'' ''</code></pre>'') s9"
  define s11 where "s11 = replace (Chr 0x0A) [Lit (js ''<br>'')] s10"
  define s12 where "s12 = replace re_bullet (wrap ''<li>'' ''</li>'') s11"
  define s13 where "s13 = replace re_items (wrap ''<ul>'' ''</ul>'') s12"
  define s14 where "s14 = replace re_numbered (wrap ''<li>'' ''</li>'') s13"
  define s15 where "s15 = replace re_items (wrap ''<ol>'' ''</ol>'') s14"
  define s16 where "s16 = replace re_link anchor s15"
  define s17 where "s17 = replace re_paragraph (wrap ''<p>'' ''</p>'') s16"
  define s18 where "s18 = replace (Plus space) [Lit (js '' '')] s17"
  have f: "formatMessageText s = trim s18"
    using False
    unfolding formatMessageText_def Let_def s18_def s17_def s16_def s15_def s14_def s13_def s12_def
      s11_def s10_def s9_def s8_def s7_def s6_def s5_def s4_def s3_def
    by simp
  have "safe tokens1 s3" unfolding s3_def by (rule escaped_safe)
  then have "safe tokens1 s4" unfolding s4_def
    by (rule heading_stage[where pre="js ''###''", rotated 3]) (simp_all add: tokens1_members, simp add: js_def)
  then have "safe tokens1 s5" unfolding s5_def
    by (rule heading_stage[where pre="js ''##''", rotated 3]) (simp_all add: tokens1_members, simp add: js_def)
  then have "safe tokens1 s6" unfolding s6_def
    by (rule heading_stage[where pre="js ''#''", rotated 3]) (simp_all add: tokens1_members, simp add: js_def)
  then have "safe tokens1 s7" unfolding s7_def dot_def
    by (rule span_stage[where c="0x2A" and m="[0x2A]", rotated 4])
       (simp_all add: tokens1_members safe_token, simp_all add: js_def unit1_def)
  then have "safe tokens1 s8" unfolding s8_def dot_def
    by (rule span_stage[where c="0x2A" and m="[]", rotated 4])
       (simp_all add: tokens1_members safe_token, simp_all add: js_def unit1_def)
  then have "safe tokens1 s9" unfolding s9_def dot_def
    by (rule span_stage[where c="0x60" and m="[]", rotated 4])
       (simp_all add: tokens1_members safe_token, simp_all add: js_def unit1_def)
  have pc: "safe tokens1 (js ''<pre><code>'')" "safe tokens1 (js ''</code></pre>'')"
  proof -
    have "js ''<pre><code>'' = js ''<pre>'' @ js ''<code>''"
      "js ''</code></pre>'' = js ''</code>'' @ js ''</pre>''" by (simp_all add: js_def)
    then show "safe tokens1 (js ''<pre><code>'')" "safe tokens1 (js ''</code></pre>'')"
      by (simp_all add: safe_append safe_token tokens1_members)
  qed
  from \<open>safe tokens1 s9\<close> have "safe tokens1 s10" unfolding s10_def
    by (rule span_stage[where c="0x60" and m="[0x60, 0x60]", rotated 4])
       (simp_all add: pc, simp_all add: js_def unit1_def)
  then have "safe tokens1 s11" unfolding s11_def
  proof (rule replace_safe[OF _ _ subset_refl tokens1_nonempty, rotated 2])
    have n: "\<not> unit1 0x0A" by (simp add: unit1_def js_def)
    show "copies (Chr 0x0A) [Lit (js ''<br>'')] tokens1" by (rule copies_unit_tokens1[OF starts_Chr n])
    show "sound (Chr 0x0A) [Lit (js ''<br>'')] tokens1 tokens1"
      by (rule sound_Chr[OF n]) (simp add: safe_token tokens1_members)
  qed
  then have "safe tokens1 s12" unfolding s12_def re_bullet_def by (rule item_stage)
  then have "safe tokens1 s13" unfolding s13_def by (rule items_stage[rotated 2]) (simp_all add: tokens1_members)
  then have "safe tokens1 s14" unfolding s14_def re_numbered_def by (rule item_stage)
  then have "safe tokens1 s15" unfolding s15_def by (rule items_stage[rotated 2]) (simp_all add: tokens1_members)
  then have "safe tokens2 s16" unfolding s16_def
  proof (rule replace_safe[OF _ sound_link tokens1_sub_tokens2 tokens1_nonempty, rotated 1])
    show "copies re_link anchor tokens1"
      by (rule copies_unit_tokens1[OF starts_link]) (simp add: unit1_def js_def)
  qed
  then have "safe tokens2 s17" unfolding s17_def
    by (rule replace_safe[OF copies_bol_tokens2[OF starts_paragraph] sound_paragraph subset_refl tokens2_nonempty])
  then have "safe tokens2 s18" unfolding s18_def
    by (rule replace_safe[OF copies_space sound_space subset_refl tokens2_nonempty])
  then show ?thesis unfolding f by (rule trim_safe)
qed

section \<open>From the invariant to the positions of the output\<close>

lemma covered:
  assumes "safe T s" "i < length s" "\<not> plain (s ! i)"
  shows "\<exists>t \<in> set T. \<exists>j < length t. j \<le> i \<and> occurs_at t s (i - j) \<and> t ! j = s ! i"
  using assms
proof (induction arbitrary: i rule: safe.induct)
  case safe_nil
  then show ?case by simp
next
  case (safe_chr c s)
  then obtain i' where i: "i = Suc i'" by (cases i) auto
  with safe_chr.prems have "i' < length s" "\<not> plain (s ! i')" by simp_all
  from safe_chr.IH[OF this] obtain t j where
    t: "t \<in> set T" "j < length t" "j \<le> i'" "occurs_at t s (i' - j)" "t ! j = s ! i'" by blast
  from t(3) have "Suc i' - j = Suc (i' - j)" by simp
  with t(4) have "occurs_at t (c # s) (Suc i' - j)" by (simp add: occurs_at_def)
  moreover from t(3) have "j \<le> Suc i'" by simp
  moreover from t(5) have "t ! j = (c # s) ! Suc i'" by simp
  ultimately show ?case unfolding i using t(1,2) by blast
next
  case (safe_tok t s)
  show ?case
  proof (cases "i < length t")
    case True
    have "occurs_at t (t @ s) (i - i)" by (simp add: occurs_at_def)
    moreover from True have "t ! i = (t @ s) ! i" by (simp add: nth_append)
    ultimately show ?thesis using True safe_tok.hyps(1) by blast
  next
    case False
    with safe_tok.prems have "i - length t < length s" "\<not> plain (s ! (i - length t))"
      by (simp_all add: nth_append)
    from safe_tok.IH[OF this] obtain t' j where
      t: "t' \<in> set T" "j < length t'" "j \<le> i - length t" "occurs_at t' s (i - length t - j)"
         "t' ! j = s ! (i - length t)" by blast
    from t(3) False have "i - j - length t = i - length t - j" "length t \<le> i - j" by simp_all
    with t(4) have "occurs_at t' (t @ s) (i - j)" by (simp add: occurs_at_def)
    moreover from False t(5) have "t' ! j = (t @ s) ! i" by (simp add: nth_append)
    moreover from t(3) have "j \<le> i" by simp
    ultimately show ?thesis using t(1,2) by blast
  qed
qed

lemma tokens2_lt: "t \<in> set tokens2 \<Longrightarrow> j < length t \<Longrightarrow> t ! j = 0x3C \<Longrightarrow> j = 0 \<and> t \<in> set generated_tags"
  unfolding tokens2_def tokens1_def entities_def block_tags_def anchor_tags_def generated_tags_def js_def
  by (simp, elim disjE; simp add: nth_Cons' split: if_splits)

lemma tokens2_gt: "t \<in> set tokens2 \<Longrightarrow> j < length t \<Longrightarrow> t ! j = 0x3E \<Longrightarrow> Suc j = length t \<and> t \<in> set generated_tags"
  unfolding tokens2_def tokens1_def entities_def block_tags_def anchor_tags_def generated_tags_def js_def
  by (simp, elim disjE; simp add: nth_Cons' split: if_splits)

lemma tokens2_amp: "t \<in> set tokens2 \<Longrightarrow> j < length t \<Longrightarrow> t ! j = 0x26 \<Longrightarrow> j = 0 \<and> t \<in> set entities"
  unfolding tokens2_def tokens1_def entities_def block_tags_def anchor_tags_def generated_tags_def js_def
  by (simp, elim disjE; simp add: nth_Cons' split: if_splits)

lemma generated_not_script: "t \<in> set generated_tags \<Longrightarrow> 3 \<le> length t \<and> take 3 t \<noteq> js ''<sc''"
  unfolding block_tags_def anchor_tags_def generated_tags_def js_def
  by (simp, elim disjE; simp)

lemma safe_local:
  assumes "safe tokens2 s"
  shows "(\<forall>i < length s.
           (s ! i = 0x3C \<longrightarrow> (\<exists>t \<in> set generated_tags. occurs_at t s i)) \<and>
           (s ! i = 0x3E \<longrightarrow> (\<exists>t \<in> set generated_tags. ends_at t s i)) \<and>
           (s ! i = 0x26 \<longrightarrow> (\<exists>e \<in> set entities. occurs_at e s i))) \<and>
         (\<forall>i. \<not> occurs_at (js ''<script'') s i)"
proof -
  have lt: "\<exists>t \<in> set generated_tags. occurs_at t s i" if "i < length s" "s ! i = 0x3C" for i
  proof -
    from that have "\<not> plain (s ! i)" by (simp add: plain_def)
    from covered[OF assms that(1) this] obtain t j where
      t: "t \<in> set tokens2" "j < length t" "j \<le> i" "occurs_at t s (i - j)" "t ! j = s ! i" by blast
    with that tokens2_lt[of t j] show ?thesis by auto
  qed
  have gt: "\<exists>t \<in> set generated_tags. ends_at t s i" if "i < length s" "s ! i = 0x3E" for i
  proof -
    from that have "\<not> plain (s ! i)" by (simp add: plain_def)
    from covered[OF assms that(1) this] obtain t j where
      t: "t \<in> set tokens2" "j < length t" "j \<le> i" "occurs_at t s (i - j)" "t ! j = s ! i" by blast
    with that tokens2_gt[of t j] have l: "Suc j = length t" and g: "t \<in> set generated_tags" by auto
    from l t(3) have "length t \<le> Suc i" "Suc i - length t = i - j" by simp_all
    with t(4) g show ?thesis unfolding ends_at_def by auto
  qed
  have amp: "\<exists>e \<in> set entities. occurs_at e s i" if "i < length s" "s ! i = 0x26" for i
  proof -
    from that have "\<not> plain (s ! i)" by (simp add: plain_def)
    from covered[OF assms that(1) this] obtain t j where
      t: "t \<in> set tokens2" "j < length t" "j \<le> i" "occurs_at t s (i - j)" "t ! j = s ! i" by blast
    with that tokens2_amp[of t j] show ?thesis by auto
  qed
  have scr: "\<not> occurs_at (js ''<script'') s i" for i
  proof
    assume o: "occurs_at (js ''<script'') s i"
    have len: "length (js ''<script'') = 7" by (simp add: js_def)
    from o have 7: "take 7 (drop i s) = js ''<script''" unfolding occurs_at_def len .
    have i: "i < length s"
    proof (rule ccontr)
      assume "\<not> i < length s"
      with 7 show False by (simp add: js_def)
    qed
    from 7 have "hd (take 7 (drop i s)) = hd (js ''<script'')" by simp
    then have "hd (drop i s) = 0x3C" by (simp add: hd_take js_def)
    with i have "s ! i = 0x3C" by (simp add: hd_drop_conv_nth)
    from lt[OF i this] obtain t where t: "t \<in> set generated_tags" "occurs_at t s i" by blast
    from generated_not_script[OF t(1)] have l: "3 \<le> length t" and n: "take 3 t \<noteq> js ''<sc''" by simp_all
    from t(2) have "take 3 t = take 3 (take (length t) (drop i s))" by (simp add: occurs_at_def)
    also from l have "\<dots> = take 3 (drop i s)" by (simp add: min_def)
    also have "\<dots> = take 3 (take 7 (drop i s))" by simp
    also have "\<dots> = take 3 (js ''<script'')" unfolding 7 ..
    also have "\<dots> = js ''<sc''" by (simp add: js_def)
    finally show False using n by simp
  qed
  from lt gt amp scr show ?thesis by blast
qed

text \<open>
  C1. For every input the formatter returns (both recursions of the model are total, and a
  string method does not throw on a string), and in its output every \<^verbatim>\<open><\<close> is the
  first code unit of a piece of generated markup, every \<^verbatim>\<open>>\<close> the last code unit of
  one, every \<^verbatim>\<open>&\<close> the first code unit of one of the three entities, and
  \<^verbatim>\<open><script\<close> occurs nowhere: the escaping of line 53 comes first, and no later stage
  cuts a token.
\<close>

theorem format_output_safe:
  "(\<forall>i < length (formatMessageText s).
      (formatMessageText s ! i = 0x3C \<longrightarrow>
         (\<exists>t \<in> set generated_tags. occurs_at t (formatMessageText s) i)) \<and>
      (formatMessageText s ! i = 0x3E \<longrightarrow>
         (\<exists>t \<in> set generated_tags. ends_at t (formatMessageText s) i)) \<and>
      (formatMessageText s ! i = 0x26 \<longrightarrow>
         (\<exists>e \<in> set entities. occurs_at e (formatMessageText s) i))) \<and>
   (\<forall>i. \<not> occurs_at (js ''<script'') (formatMessageText s) i)"
  by (rule safe_local[OF format_safe])

theorem format_output_safe_witness:
  "0 < length (formatMessageText (js ''<script>&'')) \<and>
   formatMessageText (js ''<script>&'') ! 0 = 0x3C \<and>
   (\<exists>t \<in> set generated_tags. occurs_at t (formatMessageText (js ''<script>&'')) 0) \<and>
   formatMessageText (js ''<script>&'') ! 2 = 0x3E \<and>
   (\<exists>t \<in> set generated_tags. ends_at t (formatMessageText (js ''<script>&'')) 2) \<and>
   formatMessageText (js ''<script>&'') ! 3 = 0x26 \<and>
   (\<exists>e \<in> set entities. occurs_at e (formatMessageText (js ''<script>&'')) 3) \<and>
   \<not> occurs_at (js ''<script'') (formatMessageText (js ''<script>&'')) 4"
proof -
  have f: "formatMessageText (js ''<script>&'') = js ''<p>&lt;script&gt;&amp;</p>''"
    by code_simp
  have n: "js ''<p>&lt;script&gt;&amp;</p>'' ! 0 = 0x3C" "js ''<p>&lt;script&gt;&amp;</p>'' ! 2 = 0x3E"
    "js ''<p>&lt;script&gt;&amp;</p>'' ! 3 = 0x26" "3 < length (js ''<p>&lt;script&gt;&amp;</p>'')"
    by (simp_all add: js_def)
  from format_output_safe[of "js ''<script>&''"] n show ?thesis
    unfolding f by auto
qed

section \<open>A stage keeps a block of text\<close>

lemma copy_block:
  assumes "\<And>B1 B2. B = B1 @ B2 \<Longrightarrow> B1 \<noteq> [] \<Longrightarrow> B2 \<noteq> [] \<Longrightarrow> ms r (Some (last B1), B2 @ b, Map.empty) = []"
    and "B = B1 @ B2" "B2 \<noteq> []" "ms r (p, B2 @ b, Map.empty) = []"
  shows "replace_from r tm p (B2 @ b) = B2 @ replace_from r tm (Some (last B)) b"
  using assms(2-)
proof (induction B2 arbitrary: B1 p)
  case Nil
  then show ?case by simp
next
  case (Cons x B2)
  from Cons.prems(3) have c: "replace_from r tm p ((x # B2) @ b) = x # replace_from r tm (Some x) (B2 @ b)"
    by (simp add: replace_from_nomatch)
  show ?case
  proof (cases B2)
    case Nil
    with Cons.prems(1) have "last B = x" by simp
    with c Nil show ?thesis by simp
  next
    case (Cons y B3)
    from Cons.prems(1) have e: "B = (B1 @ [x]) @ B2" by simp
    from assms(1)[OF e] Cons have "ms r (Some x, B2 @ b, Map.empty) = []" by simp
    from Cons.IH[OF e _ this] Cons c show ?thesis by simp
  qed
qed

lemma protected_stage:
  assumes "protects r tm B" "B \<noteq> []"
  shows "\<exists>a' b'. replace_from r tm p (a @ B @ b) = a' @ B @ b' \<and> filter bracket a' = filter bracket a"
proof (induction "length a" arbitrary: a p rule: less_induct)
  case less
  show ?case
  proof (cases "ms r (p, a @ B @ b, Map.empty)")
    case Nil
    show ?thesis
    proof (cases a)
      case Nil
      have "replace_from r tm p (B @ b) = B @ replace_from r tm (Some (last B)) b"
      proof (rule copy_block[of B r b "[]"])
        fix B1 B2 assume "B = B1 @ B2" "B1 \<noteq> []" "B2 \<noteq> []"
        with assms(1) show "ms r (Some (last B1), B2 @ b, Map.empty) = []"
          unfolding protects_def by blast
      next
        show "B = [] @ B" by simp
        show "B \<noteq> []" by (rule assms(2))
        from \<open>ms r (p, a @ B @ b, Map.empty) = []\<close> Nil show "ms r (p, B @ b, Map.empty) = []" by simp
      qed
      then have "replace_from r tm p (a @ B @ b) = [] @ B @ replace_from r tm (Some (last B)) b \<and>
                 filter bracket [] = filter bracket a" using Nil by simp
      then show ?thesis by blast
    next
      case (Cons x a1)
      with Nil have "replace_from r tm p (a @ B @ b) = x # replace_from r tm (Some x) (a1 @ B @ b)"
        by (simp add: replace_from_nomatch)
      moreover from less[of a1 "Some x"] Cons obtain a' b' where
        "replace_from r tm (Some x) (a1 @ B @ b) = a' @ B @ b'" "filter bracket a' = filter bracket a1"
        by auto
      ultimately have "replace_from r tm p (a @ B @ b) = (x # a') @ B @ b' \<and>
                 filter bracket (x # a') = filter bracket a" using Cons by simp
      then show ?thesis by blast
    qed
  next
    case (Cons q rest)
    obtain p' ys k where q: "q = (p', ys, k)" by (cases q)
    with Cons have m: "(p', ys, k) \<in> set (ms r (p, a @ B @ b, Map.empty))" by simp
    with assms(1) consider
      d e where "a = d @ e" "d \<noteq> []" "ys = e @ B @ b"
        "filter bracket (GetSubstitution tm k) = filter bracket d"
      | x y z where "GetSubstitution tm k = x @ B @ y" "b = z @ ys" "filter bracket x = filter bracket a"
      unfolding protects_def by blast
    then show ?thesis
    proof cases
      case 1
      then have l: "length ys < length (a @ B @ b)" by simp
      from replace_from_match[of r p "a @ B @ b" p' ys k rest tm] Cons q l
      have r: "replace_from r tm p (a @ B @ b) = GetSubstitution tm k @ replace_from r tm p' ys" by simp
      from 1 less[of e p'] obtain a' b' where
        "replace_from r tm p' (e @ B @ b) = a' @ B @ b'" "filter bracket a' = filter bracket e" by auto
      with r 1 have "replace_from r tm p (a @ B @ b) = (GetSubstitution tm k @ a') @ B @ b' \<and>
            filter bracket (GetSubstitution tm k @ a') = filter bracket a" by simp
      then show ?thesis by blast
    next
      case 2
      with assms(2) have l: "length ys < length (a @ B @ b)" by simp
      from replace_from_match[of r p "a @ B @ b" p' ys k rest tm] Cons q l
      have r: "replace_from r tm p (a @ B @ b) = GetSubstitution tm k @ replace_from r tm p' ys" by simp
      with 2 have "replace_from r tm p (a @ B @ b) = x @ B @ (y @ replace_from r tm p' ys) \<and>
            filter bracket x = filter bracket a" by simp
      then show ?thesis by blast
    qed
  qed
qed

lemma around_stage:
  assumes "protects r tm B" "B \<noteq> []" "around B f t"
  shows "around B f (replace r tm t)"
proof -
  from assms(3) obtain a b where t: "t = a @ B @ b" "filter bracket a = f" unfolding around_def by blast
  from protected_stage[OF assms(1,2), of None a b] t show ?thesis
    unfolding around_def replace_def by auto
qed

lemma cut2:
  assumes "x @ y = u @ v"
  obtains w where "x = u @ w" "w @ y = v" | w where "w \<noteq> []" "x @ w = u" "y = w @ v"
proof -
  from assms obtain us where "x = u @ us \<and> us @ y = v \<or> x @ us = u \<and> y = us @ v"
    unfolding append_eq_append_conv2 by blast
  then show ?thesis
  proof
    assume "x = u @ us \<and> us @ y = v"
    then show ?thesis using that(1) by blast
  next
    assume h: "x @ us = u \<and> y = us @ v"
    show ?thesis
    proof (cases us)
      case Nil
      with h have "x = u @ []" "[] @ y = v" by simp_all
      then show ?thesis by (rule that(1))
    next
      case Cons
      with h that(2) show ?thesis by blast
    qed
  qed
qed

lemma hd_of_part: "w \<noteq> [] \<Longrightarrow> x @ w = u \<Longrightarrow> hd w \<in> set u"
  by (cases w) auto

lemma wrap_cut:
  assumes e: "a @ B @ b = d1 @ cap @ d2 @ ys" and B: "B \<noteq> []"
    and h1: "hd B \<notin> set d1" and h2: "hd B \<notin> set d2"
    and f1: "d2 \<noteq> [] \<Longrightarrow> hd d2 \<notin> set B" and f2: "d2 = [] \<Longrightarrow> ys = [] \<or> hd ys \<notin> set B"
  shows "(\<exists>e. a = d1 @ cap @ d2 @ e \<and> ys = e @ B @ b) \<or>
         (\<exists>c1 c2. cap = c1 @ B @ c2 \<and> a = d1 @ c1 \<and> b = c2 @ d2 @ ys)"
proof -
  obtain h B' where Bc: "B = h # B'" using B by (cases B) auto
  from e have "a @ (B @ b) = d1 @ (cap @ d2 @ ys)" by simp
  then show ?thesis
  proof (cases rule: cut2)
    case (2 us)
    with Bc have "hd us = h" by (cases us) auto
    with hd_of_part[OF 2(1,2)] have "h \<in> set d1" by simp
    with h1 Bc show ?thesis by simp
  next
    case (1 us)
    from 1(2) have "us @ (B @ b) = cap @ (d2 @ ys)" by simp
    then show ?thesis
    proof (cases rule: cut2)
      case A: (1 vs)
      from A(2) have "vs @ (B @ b) = d2 @ ys" by simp
      then show ?thesis
      proof (cases rule: cut2)
        case (1 ws)
        with A \<open>a = d1 @ us\<close> show ?thesis by auto
      next
        case (2 ws)
        with Bc have "hd ws = h" by (cases ws) auto
        with hd_of_part[OF 2(1,2)] have "h \<in> set d2" by simp
        with h2 Bc show ?thesis by simp
      qed
    next
      case Bv: (2 vs)
      from Bv(3) have "B @ b = vs @ (d2 @ ys)" by simp
      then show ?thesis
      proof (cases rule: cut2)
        case (2 c2)
        with Bv \<open>a = d1 @ us\<close> have "cap = us @ B @ c2 \<and> a = d1 @ us \<and> b = c2 @ d2 @ ys" by auto
        then show ?thesis by blast
      next
        case (1 c2)
        show ?thesis
        proof (cases c2)
          case Nil
          with 1 Bv \<open>a = d1 @ us\<close> have "cap = us @ B @ [] \<and> a = d1 @ us \<and> b = [] @ d2 @ ys" by auto
          then show ?thesis by blast
        next
          case (Cons x c2')
          with 1 have c: "hd c2 \<in> set B" by simp
          show ?thesis
          proof (cases d2)
            case Nil
            with 1 have "ys = c2 @ b" by simp
            with Cons have "ys \<noteq> []" "hd ys = hd c2" by simp_all
            with f2[OF Nil] c show ?thesis by simp
          next
            case d: (Cons y d2')
            with 1 Cons have "hd c2 = hd d2" by simp
            with f1 d c show ?thesis by simp
          qed
        qed
      qed
    qed
  qed
qed

lemma protects_by_shape:
  assumes shape: "\<And>p xs q. q \<in> set (ms r (p, xs, Map.empty)) \<Longrightarrow>
       \<exists>d1 cap d2 ys p' k. xs = d1 @ cap @ d2 @ ys \<and> q = (p', ys, k) \<and>
          GetSubstitution tm k = ta @ cap @ tb \<and> (\<forall>c \<in> set d1 \<union> set d2. D c) \<and>
          d1 @ cap @ d2 \<noteq> [] \<and> (d2 \<noteq> [] \<longrightarrow> F (hd d2)) \<and> (d2 = [] \<longrightarrow> ys = [] \<or> F (hd ys))"
    and st: "starts r S"
    and D: "\<And>c. D c \<Longrightarrow> \<not> bracket c"
    and o: "filter bracket ta = []" "filter bracket tb = []"
    and B: "B \<noteq> []" "\<not> D (hd B)" "\<forall>c \<in> set B. \<not> F c"
    and S: "\<And>x y. x \<in> set B \<Longrightarrow> y \<in> set B \<Longrightarrow> \<not> S (Some x) y"
  shows "protects r tm B"
  unfolding protects_def
proof (intro conjI allI impI)
  fix B1 B2 b
  assume h: "B = B1 @ B2 \<and> B1 \<noteq> [] \<and> B2 \<noteq> []"
  show "ms r (Some (last B1), B2 @ b, Map.empty) = []"
  proof (cases "ms r (Some (last B1), B2 @ b, Map.empty)")
    case (Cons q qs)
    from h obtain y B3 where y: "B2 = y # B3" by (cases B2) auto
    with Cons have "q \<in> set (ms r (Some (last B1), y # (B3 @ b), Map.empty))" by simp
    with st have "S (Some (last B1)) y" unfolding starts_def by blast
    moreover from h y have "last B1 \<in> set B" "y \<in> set B" by simp_all
    ultimately show ?thesis using S by blast
  qed simp
next
  fix p a b p' ys k
  assume "(p', ys, k) \<in> set (ms r (p, a @ B @ b, Map.empty))"
  from shape[OF this] obtain d1 cap d2 where
    xs: "a @ B @ b = d1 @ cap @ d2 @ ys" and g: "GetSubstitution tm k = ta @ cap @ tb"
    and d: "\<forall>c \<in> set d1 \<union> set d2. D c" and ne: "d1 @ cap @ d2 \<noteq> []"
    and f1: "d2 \<noteq> [] \<longrightarrow> F (hd d2)" and f2: "d2 = [] \<longrightarrow> ys = [] \<or> F (hd ys)"
    by blast
  from d D have fd: "filter bracket d1 = []" "filter bracket d2 = []"
    by (auto simp: filter_empty_conv)
  from d B(2) have h: "hd B \<notin> set d1" "hd B \<notin> set d2" by auto
  from f1 B(3) have g1: "d2 \<noteq> [] \<Longrightarrow> hd d2 \<notin> set B" by blast
  from f2 B(3) have g2: "d2 = [] \<Longrightarrow> ys = [] \<or> hd ys \<notin> set B" by blast
  from wrap_cut[OF xs B(1) h g1 g2] consider
    e where "a = d1 @ cap @ d2 @ e" "ys = e @ B @ b"
    | c1 c2 where "cap = c1 @ B @ c2" "a = d1 @ c1" "b = c2 @ d2 @ ys"
    by blast
  then show "(\<exists>d e. a = d @ e \<and> d \<noteq> [] \<and> ys = e @ B @ b \<and>
               filter bracket (GetSubstitution tm k) = filter bracket d) \<or>
        (\<exists>x y z. GetSubstitution tm k = x @ B @ y \<and> b = z @ ys \<and>
               filter bracket x = filter bracket a)"
  proof cases
    case 1
    then have "a = (d1 @ cap @ d2) @ e \<and> d1 @ cap @ d2 \<noteq> [] \<and> ys = e @ B @ b \<and>
       filter bracket (GetSubstitution tm k) = filter bracket (d1 @ cap @ d2)"
      using ne g o fd by simp
    then show ?thesis by blast
  next
    case 2
    then have "GetSubstitution tm k = (ta @ c1) @ B @ (c2 @ tb) \<and> b = (c2 @ d2) @ ys \<and>
       filter bracket (ta @ c1) = filter bracket a"
      using g o fd by simp
    then show ?thesis by blast
  qed
qed

section \<open>The stages before the link stage keep a span\<close>

lemma bracket_js: "filter bracket (js s) = [] \<longleftrightarrow> (\<forall>c \<in> set (js s). \<not> bracket c)"
  by (simp add: filter_empty_conv)

lemma protects_heading:
  assumes "inert B" "0x5B \<notin> set (js marks)" "\<forall>c \<in> set (js marks). \<not> bracket c"
    "\<forall>c \<in> set (js a). \<not> bracket c" "\<forall>c \<in> set (js b). \<not> bracket c" "js marks \<noteq> []"
  shows "protects (re_heading marks) (wrap a b) B"
proof (rule protects_by_shape[where D = "\<lambda>c. c \<in> set (js marks)" and F = isLineTerminator
         and ta = "js a" and tb = "js b"
         and S = "\<lambda>p x. p = None \<or> (\<exists>c. p = Some c \<and> isLineTerminator c)"])
  fix p xs q
  assume "q \<in> set (ms (re_heading marks) (p, xs, Map.empty))"
  from heading_shape[OF this] obtain cap ys p' k' where
    h: "xs = js marks @ cap @ ys" "q = (p', ys, k')" "k' 1 = Some cap"
      "ys = [] \<or> isLineTerminator (hd ys)" by blast
  then have "xs = js marks @ cap @ [] @ ys \<and> q = (p', ys, k') \<and>
       GetSubstitution (wrap a b) k' = js a @ cap @ js b \<and>
       (\<forall>c \<in> set (js marks) \<union> set []. c \<in> set (js marks)) \<and>
       js marks @ cap @ [] \<noteq> [] \<and> ([] \<noteq> [] \<longrightarrow> isLineTerminator (hd [])) \<and>
       ([] = [] \<longrightarrow> ys = [] \<or> isLineTerminator (hd ys))"
    using assms(6) by (simp add: subst_wrap)
  then show "\<exists>d1 cap d2 ys p' k. xs = d1 @ cap @ d2 @ ys \<and> q = (p', ys, k) \<and>
          GetSubstitution (wrap a b) k = js a @ cap @ js b \<and> (\<forall>c \<in> set d1 \<union> set d2. c \<in> set (js marks)) \<and>
          d1 @ cap @ d2 \<noteq> [] \<and> (d2 \<noteq> [] \<longrightarrow> isLineTerminator (hd d2)) \<and>
          (d2 = [] \<longrightarrow> ys = [] \<or> isLineTerminator (hd ys))"
    by blast
next
  show "starts (re_heading marks) (\<lambda>p x. p = None \<or> (\<exists>c. p = Some c \<and> isLineTerminator c))"
    by (rule starts_heading)
  show "\<And>c. c \<in> set (js marks) \<Longrightarrow> \<not> bracket c" using assms(3) by blast
  show "filter bracket (js a) = []" "filter bracket (js b) = []"
    using assms(4,5) by (simp_all add: filter_empty_conv)
  show "B \<noteq> []" "hd B \<notin> set (js marks)" "\<forall>c \<in> set B. \<not> isLineTerminator c"
    using assms(1,2) by (simp_all add: inert_def)
  show "\<And>x y. x \<in> set B \<Longrightarrow> y \<in> set B \<Longrightarrow>
     \<not> (Some x = None \<or> (\<exists>c. Some x = Some c \<and> isLineTerminator c))"
    using assms(1) by (simp add: inert_def)
qed

lemma protects_span:
  assumes "inert B" "js mark \<noteq> []" "\<forall>c \<in> set (js mark). \<not> bracket c \<and> c \<notin> set B"
    "\<forall>c \<in> set (js a). \<not> bracket c" "\<forall>c \<in> set (js b). \<not> bracket c"
  shows "protects (re_span mark (Cls P)) (wrap a b) B"
proof (rule protects_by_shape[where D = "\<lambda>c. c \<in> set (js mark)" and F = "\<lambda>c. c = hd (js mark)"
         and ta = "js a" and tb = "js b" and S = "\<lambda>p x. x = hd (js mark)"])
  fix p xs q
  assume "q \<in> set (ms (re_span mark (Cls P)) (p, xs, Map.empty))"
  from span_shape[OF this] obtain cap ys p' k' where
    h: "xs = js mark @ cap @ js mark @ ys" "q = (p', ys, k')" "k' 1 = Some cap" by blast
  then have "xs = js mark @ cap @ js mark @ ys \<and> q = (p', ys, k') \<and>
       GetSubstitution (wrap a b) k' = js a @ cap @ js b \<and>
       (\<forall>c \<in> set (js mark) \<union> set (js mark). c \<in> set (js mark)) \<and>
       js mark @ cap @ js mark \<noteq> [] \<and> (js mark \<noteq> [] \<longrightarrow> hd (js mark) = hd (js mark)) \<and>
       (js mark = [] \<longrightarrow> ys = [] \<or> hd ys = hd (js mark))"
    using assms(2) by (simp add: subst_wrap)
  then show "\<exists>d1 cap d2 ys p' k. xs = d1 @ cap @ d2 @ ys \<and> q = (p', ys, k) \<and>
          GetSubstitution (wrap a b) k = js a @ cap @ js b \<and> (\<forall>c \<in> set d1 \<union> set d2. c \<in> set (js mark)) \<and>
          d1 @ cap @ d2 \<noteq> [] \<and> (d2 \<noteq> [] \<longrightarrow> hd d2 = hd (js mark)) \<and>
          (d2 = [] \<longrightarrow> ys = [] \<or> hd ys = hd (js mark))"
    by blast
next
  show "starts (re_span mark (Cls P)) (\<lambda>p x. x = hd (js mark))"
    by (rule starts_span[OF assms(2)])
  show "\<And>c. c \<in> set (js mark) \<Longrightarrow> \<not> bracket c" using assms(3) by blast
  show "filter bracket (js a) = []" "filter bracket (js b) = []"
    using assms(4,5) by (simp_all add: filter_empty_conv)
  from assms(1) have ne: "B \<noteq> []" by (simp add: inert_def)
  then show "B \<noteq> []" .
  from ne have "hd B \<in> set B" by simp
  with assms(3) show "hd B \<notin> set (js mark)" by blast
  from assms(2) have "hd (js mark) \<in> set (js mark)" by simp
  with assms(3) show "\<forall>c \<in> set B. c \<noteq> hd (js mark)" by blast
  then show "\<And>x y. x \<in> set B \<Longrightarrow> y \<in> set B \<Longrightarrow> y \<noteq> hd (js mark)" by blast
qed

lemma item_shape_units:
  assumes "q \<in> set (ms (seqs [Bol, A, Plus space, Grp 1 (Star dot), Eol]) (p, xs, k))"
    and A: "\<And>st q. q \<in> set (ms A st) \<Longrightarrow> \<exists>m. fst (snd st) = m @ fst (snd q) \<and> (\<forall>c \<in> set m. D c)"
    and W: "\<And>c. isWhiteSpace c \<Longrightarrow> D c"
  shows "\<exists>d cap ys p' k'. xs = d @ cap @ ys \<and> d \<noteq> [] \<and> (\<forall>c \<in> set d. D c) \<and> q = (p', ys, k') \<and>
           k' 1 = Some cap \<and> (ys = [] \<or> isLineTerminator (hd ys))"
proof -
  from assms(1) obtain st1 st2 st3 st4 where
    1: "st1 \<in> set (ms Bol (p, xs, k))" and 2: "st2 \<in> set (ms A st1)" and
    3: "st3 \<in> set (ms (Plus space) st2)" and
    4: "st4 \<in> set (ms (Grp 1 (Star dot)) st3)" and 5: "q \<in> set (ms Eol st4)"
    by (auto simp: in_Seq)
  from 1 have st1: "st1 = (p, xs, k)" by (auto simp: in_Bol split: option.splits)
  obtain p2 xs2 k2 where st2: "st2 = (p2, xs2, k2)" by (cases st2)
  from A[OF 2] st1 st2 obtain pre where pre: "xs = pre @ xs2" "\<forall>c \<in> set pre. D c" by auto
  from 3 st2 obtain ws xs3 where ws: "xs2 = ws @ xs3" "ws \<noteq> []" "\<forall>c \<in> set ws. isWhiteSpace c"
    and st3: "st3 = (Some (last ws), xs3, k2)"
    unfolding space_def by (auto simp: in_Plus_Cls)
  from 4 st3 obtain m ys where m: "xs3 = m @ ys" and
    st4: "st4 = (prev (Some (last ws)) m, ys, k2(1 \<mapsto> m))"
    unfolding dot_def by (auto simp: in_Grp in_Star_Cls)
  from 5 st4 have q: "q = st4" "ys = [] \<or> isLineTerminator (hd ys)"
    by (auto simp: in_Eol split: list.splits)
  from pre ws m have "xs = (pre @ ws) @ m @ ys" "pre @ ws \<noteq> []" "\<forall>c \<in> set (pre @ ws). D c"
    using W by auto
  with q st4 show ?thesis by auto
qed

lemma protects_item:
  assumes "inert B"
    and A: "\<And>st q. q \<in> set (ms A st) \<Longrightarrow> \<exists>m. fst (snd st) = m @ fst (snd q) \<and> (\<forall>c \<in> set m. D c)"
    and W: "\<And>c. isWhiteSpace c \<Longrightarrow> D c" and nb: "\<And>c. D c \<Longrightarrow> \<not> bracket c"
  shows "protects (seqs [Bol, A, Plus space, Grp 1 (Star dot), Eol]) (wrap ''<li>'' ''</li>'') B"
proof (rule protects_by_shape[where D = D and F = isLineTerminator
         and ta = "js ''<li>''" and tb = "js ''</li>''"
         and S = "\<lambda>p x. p = None \<or> (\<exists>c. p = Some c \<and> isLineTerminator c)"])
  fix p xs q
  assume "q \<in> set (ms (seqs [Bol, A, Plus space, Grp 1 (Star dot), Eol]) (p, xs, Map.empty))"
  from item_shape_units[OF this A W] obtain d cap ys p' k' where
    h: "xs = d @ cap @ ys" "d \<noteq> []" "\<forall>c \<in> set d. D c" "q = (p', ys, k')" "k' 1 = Some cap"
      "ys = [] \<or> isLineTerminator (hd ys)" by blast
  then have "xs = d @ cap @ [] @ ys \<and> q = (p', ys, k') \<and>
       GetSubstitution (wrap ''<li>'' ''</li>'') k' = js ''<li>'' @ cap @ js ''</li>'' \<and>
       (\<forall>c \<in> set d \<union> set []. D c) \<and>
       d @ cap @ [] \<noteq> [] \<and> ([] \<noteq> [] \<longrightarrow> isLineTerminator (hd [])) \<and>
       ([] = [] \<longrightarrow> ys = [] \<or> isLineTerminator (hd ys))"
    by (simp add: subst_wrap)
  then show "\<exists>d1 cap d2 ys p' k. xs = d1 @ cap @ d2 @ ys \<and> q = (p', ys, k) \<and>
          GetSubstitution (wrap ''<li>'' ''</li>'') k = js ''<li>'' @ cap @ js ''</li>'' \<and>
          (\<forall>c \<in> set d1 \<union> set d2. D c) \<and>
          d1 @ cap @ d2 \<noteq> [] \<and> (d2 \<noteq> [] \<longrightarrow> isLineTerminator (hd d2)) \<and>
          (d2 = [] \<longrightarrow> ys = [] \<or> isLineTerminator (hd ys))"
    by blast
next
  show "starts (seqs [Bol, A, Plus space, Grp 1 (Star dot), Eol])
          (\<lambda>p x. p = None \<or> (\<exists>c. p = Some c \<and> isLineTerminator c))"
    by (rule starts_item)
  show "\<And>c. D c \<Longrightarrow> \<not> bracket c" by (rule nb)
  show "filter bracket (js ''<li>'') = []" "filter bracket (js ''</li>'') = []"
    by (simp_all add: js_def bracket_def)
  show "B \<noteq> []" "\<forall>c \<in> set B. \<not> isLineTerminator c"
    using assms(1) by (simp_all add: inert_def)
  from assms(1) have "bracket (hd B)" by (simp add: inert_def bracket_def)
  with nb show "\<not> D (hd B)" by blast
  show "\<And>x y. x \<in> set B \<Longrightarrow> y \<in> set B \<Longrightarrow>
     \<not> (Some x = None \<or> (\<exists>c. Some x = Some c \<and> isLineTerminator c))"
    using assms(1) by (simp add: inert_def)
qed

lemma white_not_bracket: "isWhiteSpace c \<Longrightarrow> \<not> bracket c"
  by (auto simp: bracket_def isWhiteSpace_def isLineTerminator_def)

lemma digit_not_bracket: "isDigit c \<Longrightarrow> \<not> bracket c"
  by (auto simp: bracket_def isDigit_def)

lemma protects_bullet:
  assumes "inert B"
  shows "protects re_bullet (wrap ''<li>'' ''</li>'') B"
  unfolding re_bullet_def
proof (rule protects_item[OF assms, where D = "\<lambda>c. isWhiteSpace c \<or> c = 0x2D \<or> c = 0x2A"])
  fix st q
  assume "q \<in> set (ms (Seq (Star space) (Cls (\<lambda>c. c = 0x2D \<or> c = 0x2A))) st)"
  then obtain st1 where 1: "st1 \<in> set (ms (Star space) st)"
    and 2: "q \<in> set (ms (Cls (\<lambda>c. c = 0x2D \<or> c = 0x2A)) st1)" unfolding in_Seq by blast
  obtain p xs k where st: "st = (p, xs, k)" by (cases st)
  from 1 obtain m ys where m: "xs = m @ ys" "\<forall>c \<in> set m. isWhiteSpace c" "st1 = (prev p m, ys, k)"
    unfolding st space_def in_Star_Cls by blast
  from 2 obtain x zs where x: "ys = x # zs" "x = 0x2D \<or> x = 0x2A" "q = (Some x, zs, k)"
    unfolding m(3) in_Cls by blast
  from m x st have "fst (snd st) = (m @ [x]) @ fst (snd q) \<and>
      (\<forall>c \<in> set (m @ [x]). isWhiteSpace c \<or> c = 0x2D \<or> c = 0x2A)" by auto
  then show "\<exists>m. fst (snd st) = m @ fst (snd q) \<and> (\<forall>c \<in> set m. isWhiteSpace c \<or> c = 0x2D \<or> c = 0x2A)"
    by blast
next
  show "\<And>c. isWhiteSpace c \<Longrightarrow> isWhiteSpace c \<or> c = 0x2D \<or> c = 0x2A" by simp
  show "\<And>c. isWhiteSpace c \<or> c = 0x2D \<or> c = 0x2A \<Longrightarrow> \<not> bracket c"
    using white_not_bracket by (auto simp: bracket_def)
qed

lemma protects_numbered:
  assumes "inert B"
  shows "protects re_numbered (wrap ''<li>'' ''</li>'') B"
  unfolding re_numbered_def
proof (rule protects_item[OF assms, where D = "\<lambda>c. isWhiteSpace c \<or> isDigit c \<or> c = 0x2E"])
  fix st q
  assume "q \<in> set (ms (Seq (Star space) (Seq (Plus (Cls isDigit)) (Chr 0x2E))) st)"
  then obtain st1 st2 where 1: "st1 \<in> set (ms (Star space) st)"
    and 2: "st2 \<in> set (ms (Plus (Cls isDigit)) st1)" and 3: "q \<in> set (ms (Chr 0x2E) st2)"
    unfolding in_Seq by blast
  obtain p xs k where st: "st = (p, xs, k)" by (cases st)
  from 1 obtain m ys where m: "xs = m @ ys" "\<forall>c \<in> set m. isWhiteSpace c" "st1 = (prev p m, ys, k)"
    unfolding st space_def in_Star_Cls by blast
  from 2 obtain n zs where n: "ys = n @ zs" "\<forall>c \<in> set n. isDigit c" "st2 = (Some (last n), zs, k)"
    unfolding m(3) in_Plus_Cls by blast
  from 3 obtain ws where w: "zs = 0x2E # ws" "q = (Some 0x2E, ws, k)"
    unfolding n(3) in_Chr by blast
  from m n w st have "fst (snd st) = (m @ n @ [0x2E]) @ fst (snd q) \<and>
      (\<forall>c \<in> set (m @ n @ [0x2E]). isWhiteSpace c \<or> isDigit c \<or> c = 0x2E)" by auto
  then show "\<exists>m. fst (snd st) = m @ fst (snd q) \<and> (\<forall>c \<in> set m. isWhiteSpace c \<or> isDigit c \<or> c = 0x2E)"
    by blast
next
  show "\<And>c. isWhiteSpace c \<Longrightarrow> isWhiteSpace c \<or> isDigit c \<or> c = 0x2E" by simp
  show "\<And>c. isWhiteSpace c \<or> isDigit c \<or> c = 0x2E \<Longrightarrow> \<not> bracket c"
    using white_not_bracket digit_not_bracket by (auto simp: bracket_def)
qed

lemma protects_items:
  assumes "inert B" "\<forall>c \<in> set (js a). \<not> bracket c" "\<forall>c \<in> set (js b). \<not> bracket c"
  shows "protects re_items (wrap a b) B"
proof (rule protects_by_shape[where D = "\<lambda>c. c \<in> set (js ''<li>'') \<union> set (js ''</li>'')"
         and F = "\<lambda>c. c = 0x3C" and ta = "js a @ js ''<li>''" and tb = "js ''</li>'' @ js b"
         and S = "\<lambda>p x. x = 0x3C"])
  fix p xs q
  assume "q \<in> set (ms re_items (p, xs, Map.empty))"
  from items_shape[OF this] obtain mid ys p' k' where
    h: "xs = js ''<li>'' @ mid @ js ''</li>'' @ ys" "q = (p', ys, k')"
       "k' 1 = Some (js ''<li>'' @ mid @ js ''</li>'')" by blast
  have "hd (js ''</li>'') = 0x3C" "js ''</li>'' \<noteq> []" by (simp_all add: js_def)
  with h have "xs = js ''<li>'' @ mid @ js ''</li>'' @ ys \<and> q = (p', ys, k') \<and>
       GetSubstitution (wrap a b) k' = (js a @ js ''<li>'') @ mid @ (js ''</li>'' @ js b) \<and>
       (\<forall>c \<in> set (js ''<li>'') \<union> set (js ''</li>''). c \<in> set (js ''<li>'') \<union> set (js ''</li>'')) \<and>
       js ''<li>'' @ mid @ js ''</li>'' \<noteq> [] \<and> (js ''</li>'' \<noteq> [] \<longrightarrow> hd (js ''</li>'') = 0x3C) \<and>
       (js ''</li>'' = [] \<longrightarrow> ys = [] \<or> hd ys = 0x3C)"
    by (simp add: subst_wrap)
  then show "\<exists>d1 cap d2 ys p' k. xs = d1 @ cap @ d2 @ ys \<and> q = (p', ys, k) \<and>
          GetSubstitution (wrap a b) k = (js a @ js ''<li>'') @ cap @ (js ''</li>'' @ js b) \<and>
          (\<forall>c \<in> set d1 \<union> set d2. c \<in> set (js ''<li>'') \<union> set (js ''</li>'')) \<and>
          d1 @ cap @ d2 \<noteq> [] \<and> (d2 \<noteq> [] \<longrightarrow> hd d2 = 0x3C) \<and>
          (d2 = [] \<longrightarrow> ys = [] \<or> hd ys = 0x3C)"
    by blast
next
  show "starts re_items (\<lambda>p x. x = 0x3C)" by (rule starts_items)
  show "\<And>c. c \<in> set (js ''<li>'') \<union> set (js ''</li>'') \<Longrightarrow> \<not> bracket c"
    by (auto simp: js_def bracket_def)
  show "filter bracket (js a @ js ''<li>'') = []" "filter bracket (js ''</li>'' @ js b) = []"
    using assms(2,3) by (simp_all add: filter_empty_conv) (auto simp: js_def bracket_def)
  show "B \<noteq> []" "\<forall>c \<in> set B. c \<noteq> 0x3C" using assms(1) by (simp_all add: inert_def)
  then show "\<And>x y. x \<in> set B \<Longrightarrow> y \<in> set B \<Longrightarrow> y \<noteq> 0x3C" by blast
  from assms(1) show "hd B \<notin> set (js ''<li>'') \<union> set (js ''</li>'')"
    by (simp add: inert_def js_def)
qed

lemma protects_paragraph:
  assumes "B \<noteq> []" "\<forall>c \<in> set B. \<not> isLineTerminator c"
  shows "protects re_paragraph (wrap ''<p>'' ''</p>'') B"
proof (rule protects_by_shape[where D = "\<lambda>c. False" and F = isLineTerminator
         and ta = "js ''<p>''" and tb = "js ''</p>''"
         and S = "\<lambda>p x. p = None \<or> (\<exists>c. p = Some c \<and> isLineTerminator c)"])
  fix p xs q
  assume "q \<in> set (ms re_paragraph (p, xs, Map.empty))"
  from paragraph_shape[OF this] obtain cap ys p' k' where
    h: "xs = cap @ ys" "cap \<noteq> []" "q = (p', ys, k')" "k' 1 = Some cap"
      "ys = [] \<or> isLineTerminator (hd ys)" by blast
  then have "xs = [] @ cap @ [] @ ys \<and> q = (p', ys, k') \<and>
       GetSubstitution (wrap ''<p>'' ''</p>'') k' = js ''<p>'' @ cap @ js ''</p>'' \<and>
       (\<forall>c \<in> set [] \<union> set []. False) \<and>
       [] @ cap @ [] \<noteq> [] \<and> ([] \<noteq> [] \<longrightarrow> isLineTerminator (hd [])) \<and>
       ([] = [] \<longrightarrow> ys = [] \<or> isLineTerminator (hd ys))"
    by (simp add: subst_wrap)
  then show "\<exists>d1 cap d2 ys p' k. xs = d1 @ cap @ d2 @ ys \<and> q = (p', ys, k) \<and>
          GetSubstitution (wrap ''<p>'' ''</p>'') k = js ''<p>'' @ cap @ js ''</p>'' \<and>
          (\<forall>c \<in> set d1 \<union> set d2. False) \<and>
          d1 @ cap @ d2 \<noteq> [] \<and> (d2 \<noteq> [] \<longrightarrow> isLineTerminator (hd d2)) \<and>
          (d2 = [] \<longrightarrow> ys = [] \<or> isLineTerminator (hd ys))"
    by blast
next
  show "starts re_paragraph (\<lambda>p x. p = None \<or> (\<exists>c. p = Some c \<and> isLineTerminator c))"
    by (rule starts_paragraph)
  show "\<And>c. False \<Longrightarrow> \<not> bracket c" by simp
  show "filter bracket (js ''<p>'') = []" "filter bracket (js ''</p>'') = []"
    by (simp_all add: js_def bracket_def)
  show "B \<noteq> []" "\<not> False" "\<forall>c \<in> set B. \<not> isLineTerminator c" using assms by simp_all
  then show "\<And>x y. x \<in> set B \<Longrightarrow> y \<in> set B \<Longrightarrow>
     \<not> (Some x = None \<or> (\<exists>c. Some x = Some c \<and> isLineTerminator c))" by simp
qed

lemma filter_bracket_units:
  assumes "\<not> bracket c" "filter bracket t = []"
  shows "filter bracket (concat (map (\<lambda>x. if x = c then t else [x]) s)) = filter bracket s"
  using assms by (induction s) auto

lemma units_id:
  "c \<notin> set s \<Longrightarrow> concat (map (\<lambda>x. if x = c then t else [x]) s) = s"
  by (induction s) auto

lemma around_Chr:
  assumes "c \<notin> set B" "\<not> bracket c" "filter bracket t = []" "around B f s"
  shows "around B f (replace (Chr c) [Lit t] s)"
proof -
  from assms(4) obtain a b where s: "s = a @ B @ b" "filter bracket a = f" unfolding around_def by blast
  let ?g = "\<lambda>s. concat (map (\<lambda>x. if x = c then t else [x]) s)"
  have "replace (Chr c) [Lit t] s = ?g a @ B @ ?g b"
    unfolding replace_def replace_Chr_Lit s using units_id[OF assms(1)] by simp
  moreover have "filter bracket (?g a) = f" using filter_bracket_units[OF assms(2,3)] s by simp
  ultimately show ?thesis unfolding around_def by blast
qed

section \<open>The link stage\<close>

lemma parens_closed_suffix: "parens_closed (x @ y) \<Longrightarrow> parens_closed y"
  by (induction x) auto

lemma closed_suffix: "spans_closed (x @ y) \<Longrightarrow> spans_closed y"
  by (induction x) auto

lemma parens_closed_filter: "parens_closed (filter bracket s) = parens_closed s"
  by (induction s) (auto simp: bracket_def)

lemma closed_filter: "spans_closed (filter bracket s) = spans_closed s"
  by (induction s) (auto simp: parens_closed_filter[unfolded bracket_def] bracket_def)

lemma closed_no_bracket: "0x5B \<notin> set s \<Longrightarrow> spans_closed s"
  by (induction s) auto

lemma split_unique:
  "a @ c # b = a' @ c # b' \<Longrightarrow> c \<notin> set a \<Longrightarrow> c \<notin> set a' \<Longrightarrow> a = a' \<and> b = b'"
proof (induction a arbitrary: a')
  case Nil
  then show ?case by (cases a') auto
next
  case (Cons x a)
  then show ?case by (cases a') auto
qed

lemma url_ok_no_paren: "url_ok u \<Longrightarrow> 0x29 \<notin> set u"
  unfolding url_ok_def by (auto simp: js_def)

lemma link_member_rest:
  assumes "label \<noteq> []" "0x5D \<notin> set label" "url_ok url"
  shows "(Some 0x29, rest, Map.empty(1 \<mapsto> label, 2 \<mapsto> url)) \<in>
           set (ms re_link (p, span label url @ rest, Map.empty))"
proof -
  from assms(3) obtain sch v where u: "url = sch @ v" "sch = js ''http://'' \<or> sch = js ''https://''"
    "v \<noteq> []" "\<forall>c \<in> set v. \<not> (isWhiteSpace c \<or> c = 0x29)"
    unfolding url_ok_def by blast
  let ?k1 = "Map.empty(1 \<mapsto> label)"
  let ?r = "0x29 # rest"
  have 1: "(Some 0x5B, label @ 0x5D # 0x28 # url @ ?r, Map.empty) \<in>
            set (ms (Chr 0x5B) (p, span label url @ rest, Map.empty))"
    by (simp add: span_def)
  have "(Some (last label), 0x5D # 0x28 # url @ ?r, Map.empty) \<in>
          set (ms (Plus (Cls (\<lambda>c. c \<noteq> 0x5D))) (Some 0x5B, label @ 0x5D # 0x28 # url @ ?r, Map.empty))"
    unfolding in_Plus_Cls
    by (rule exI[of _ label], rule exI[of _ "0x5D # 0x28 # url @ ?r"]) (use assms(1,2) in auto)
  then have 2: "(Some (last label), 0x5D # 0x28 # url @ ?r, ?k1) \<in>
          set (ms (Grp 1 (Plus (Cls (\<lambda>c. c \<noteq> 0x5D)))) (Some 0x5B, label @ 0x5D # 0x28 # url @ ?r, Map.empty))"
    unfolding in_Grp by force
  have 3: "(Some 0x5D, 0x28 # url @ ?r, ?k1) \<in>
          set (ms (Chr 0x5D) (Some (last label), 0x5D # 0x28 # url @ ?r, ?k1))" by simp
  have 4: "(Some 0x28, url @ ?r, ?k1) \<in> set (ms (Chr 0x28) (Some 0x5D, 0x28 # url @ ?r, ?k1))"
    by simp
  have "(Some (last v), ?r, ?k1) \<in> set (ms re_url (Some 0x28, url @ ?r, ?k1))"
  proof -
    have a: "(Some 0x70, drop 4 sch @ v @ ?r, ?k1) \<in> set (ms (lit ''http'') (Some 0x28, url @ ?r, ?k1))"
      unfolding in_lit using u(1,2) by (auto simp: js_def)
    have b: "(Some 0x2F, v @ ?r, ?k1) \<in>
               set (ms (Seq (Opt (Chr 0x73)) (lit ''://'')) (Some 0x70, drop 4 sch @ v @ ?r, ?k1))"
      using u(2)
    proof
      assume "sch = js ''http://''"
      then have "drop 4 sch = js ''://''" by (simp add: js_def)
      moreover have "(Some 0x70, js ''://'' @ v @ ?r, ?k1) \<in>
          set (ms (Opt (Chr 0x73)) (Some 0x70, js ''://'' @ v @ ?r, ?k1))" by (simp add: Opt_def)
      moreover have "(Some 0x2F, v @ ?r, ?k1) \<in>
          set (ms (lit ''://'') (Some 0x70, js ''://'' @ v @ ?r, ?k1))"
        unfolding in_lit by (simp add: js_def)
      ultimately show ?thesis unfolding in_Seq by auto
    next
      assume "sch = js ''https://''"
      then have "drop 4 sch = 0x73 # js ''://''" by (simp add: js_def)
      moreover have "(Some 0x73, js ''://'' @ v @ ?r, ?k1) \<in>
          set (ms (Opt (Chr 0x73)) (Some 0x70, 0x73 # js ''://'' @ v @ ?r, ?k1))" by (simp add: Opt_def)
      moreover have "(Some 0x2F, v @ ?r, ?k1) \<in>
          set (ms (lit ''://'') (Some 0x73, js ''://'' @ v @ ?r, ?k1))"
        unfolding in_lit by (simp add: js_def)
      ultimately show ?thesis unfolding in_Seq by auto
    qed
    have c: "(Some (last v), ?r, ?k1) \<in>
               set (ms (Plus (Cls (\<lambda>c. \<not> (isWhiteSpace c \<or> c = 0x29)))) (Some 0x2F, v @ ?r, ?k1))"
      unfolding in_Plus_Cls
      by (rule exI[of _ v], rule exI[of _ "?r"]) (use u(3,4) in auto)
    from a b c show ?thesis unfolding re_url_def seqs.simps in_Seq by blast
  qed
  then have 5: "(Some (last v), ?r, ?k1(2 \<mapsto> url)) \<in>
                  set (ms (Grp 2 re_url) (Some 0x28, url @ ?r, ?k1))"
    unfolding in_Grp by force
  have 6: "(Some 0x29, rest, ?k1(2 \<mapsto> url)) \<in> set (ms (Chr 0x29) (Some (last v), ?r, ?k1(2 \<mapsto> url)))"
    by simp
  from 1 2 3 4 5 6 show ?thesis unfolding re_link_def seqs.simps in_Seq by blast
qed

lemma link_match_in_block:
  assumes "q \<in> set (ms re_link (p, B2 @ rest, k))" "span label url = B1 @ B2" "B2 \<noteq> []"
    and "0x5D \<notin> set label" "0x29 \<notin> set url" "B1 = [] \<or> 0x5B \<notin> set url"
  shows "label \<noteq> [] \<and> url_ok url"
    "B1 = [] \<Longrightarrow> \<exists>p' k'. q = (p', rest, k') \<and> k' 1 = Some label \<and> k' 2 = Some url"
proof -
  from link_shape[OF assms(1)] obtain l u ys p' k' where
    b: "B2 @ rest = 0x5B # l @ 0x5D # 0x28 # u @ 0x29 # ys" and q: "q = (p', ys, k')"
    and k: "k' 1 = Some l" "k' 2 = Some u" and l: "l \<noteq> []" "0x5D \<notin> set l" and u: "url_ok u"
    by blast
  from b assms(3) have h: "hd B2 = 0x5B" by (cases B2) auto
  from assms(2) have "span label url @ rest = B1 @ (B2 @ rest)" by simp
  then have "span label url @ rest = B1 @ (0x5B # l @ 0x5D # 0x28 # u @ 0x29 # ys)"
    unfolding b .
  then have e: "(0x5B # label) @ 0x5D # (0x28 # url @ 0x29 # rest) =
                          (B1 @ 0x5B # l) @ 0x5D # (0x28 # u @ 0x29 # ys)"
    by (simp add: span_def)
  have na: "0x5D \<notin> set B1"
  proof
    assume "0x5D \<in> set B1"
    then obtain a1 a2 where a: "B1 = a1 @ 0x5D # a2" "0x5D \<notin> set a1"
      by (meson split_list_first)
    with e have "(0x5B # label) @ 0x5D # (0x28 # url @ 0x29 # rest) =
                 a1 @ 0x5D # (a2 @ 0x5B # l @ 0x5D # 0x28 # u @ 0x29 # ys)" by simp
    from split_unique[OF this] a(2) assms(4) have "a1 = 0x5B # label" by simp
    with a(1) have "B1 = (0x5B # label) @ 0x5D # a2" by simp
    with assms(2) have "a2 @ B2 = 0x28 # url @ [0x29]" by (simp add: span_def)
    moreover from h assms(3) have "0x5B \<in> set B2" by (cases B2) auto
    ultimately have "0x5B \<in> set (0x28 # url @ [0x29])" by (metis Un_iff set_append)
    moreover from a(1) have "B1 \<noteq> []" by simp
    ultimately show False using assms(6) by simp
  qed
  from split_unique[OF e] na l(2) assms(4) have 1: "0x5B # label = B1 @ 0x5B # l" and
    2: "0x28 # url @ 0x29 # rest = 0x28 # u @ 0x29 # ys"
    by simp_all
  from 2 have "url @ 0x29 # rest = u @ 0x29 # ys" by simp
  from split_unique[OF this] assms(5) url_ok_no_paren[OF u] have 3: "url = u" "rest = ys"
    by simp_all
  from 1 l(1) have "label \<noteq> []" by (cases B1) auto
  with u 3 show "label \<noteq> [] \<and> url_ok url" by simp
  show "\<exists>p' k'. q = (p', rest, k') \<and> k' 1 = Some label \<and> k' 2 = Some url" if "B1 = []"
    using that 1 3 q k by simp
qed

lemma link_match_before:
  assumes "q \<in> set (ms re_link (p, a @ B @ b, k))" "a \<noteq> []" "spans_closed a" "B \<noteq> []" "hd B = 0x5B"
  shows "\<exists>d e p' k'. a = d @ e \<and> d \<noteq> [] \<and> q = (p', e @ B @ b, k')"
proof -
  from link_shape[OF assms(1)] obtain l u ys p' k' where
    x: "a @ B @ b = 0x5B # l @ 0x5D # 0x28 # u @ 0x29 # ys" and q: "q = (p', ys, k')"
    and l: "0x5D \<notin> set l" and u: "url_ok u"
    by blast
  from assms(2) x obtain a1 where a: "a = 0x5B # a1" by (cases a) auto
  with x have x1: "a1 @ B @ b = l @ 0x5D # 0x28 # u @ 0x29 # ys" by simp
  from a assms(3) have c: "0x5D \<in> set a1" "parens_closed a1" by simp_all
  from c(1) obtain s1 s2 where s: "a1 = s1 @ 0x5D # s2" "0x5D \<notin> set s1"
    by (meson split_list_first)
  with x1 have "s1 @ 0x5D # (s2 @ B @ b) = l @ 0x5D # (0x28 # u @ 0x29 # ys)" by simp
  from split_unique[OF this s(2) l] have s1: "s1 = l" and x2: "s2 @ B @ b = 0x28 # u @ 0x29 # ys"
    by simp_all
  have "s2 \<noteq> []"
  proof
    assume "s2 = []"
    with x2 assms(4) have "hd B = 0x28" by (cases B) auto
    with assms(5) show False by simp
  qed
  with x2 obtain s3 where s3: "s2 = 0x28 # s3" by (cases s2) auto
  with x2 have x3: "s3 @ B @ b = u @ 0x29 # ys" by simp
  from c(2) s have "parens_closed s2" using parens_closed_suffix[of "s1 @ [0x5D]" s2] by simp
  with s3 have "0x29 \<in> set s3" by simp
  then obtain t1 t2 where t: "s3 = t1 @ 0x29 # t2" "0x29 \<notin> set t1"
    by (meson split_list_first)
  with x3 have "t1 @ 0x29 # (t2 @ B @ b) = u @ 0x29 # ys" by simp
  from split_unique[OF this t(2) url_ok_no_paren[OF u]] have "ys = t2 @ B @ b" by simp
  moreover from a s s3 t have "a = (0x5B # s1 @ 0x5D # 0x28 # t1 @ [0x29]) @ t2" by simp
  ultimately have "a = (0x5B # s1 @ 0x5D # 0x28 # t1 @ [0x29]) @ t2 \<and>
     0x5B # s1 @ 0x5D # 0x28 # t1 @ [0x29] \<noteq> [] \<and> q = (p', t2 @ B @ b, k')"
    using q by simp
  then show ?thesis by blast
qed

lemma link_stage_block:
  assumes "spans_closed a" "0x5D \<notin> set label" "0x29 \<notin> set url"
    and "(label \<noteq> [] \<and> url_ok url) \<or> 0x5B \<notin> set url"
  shows "\<exists>a' b'. replace_from re_link anchor p (a @ span label url @ b) =
           a' @ (if label \<noteq> [] \<and> url_ok url then anchor_for label url else span label url) @ b' \<and>
           (0x5B \<notin> set a \<longrightarrow> a' = a)"
  using assms(1)
proof (induction "length a" arbitrary: a p rule: less_induct)
  case less
  let ?B = "span label url"
  let ?R = "if label \<noteq> [] \<and> url_ok url then anchor_for label url else span label url"
  have Bne: "?B \<noteq> []" "hd ?B = 0x5B" by (simp_all add: span_def)
  show ?case
  proof (cases a)
    case Nil
    show ?thesis
    proof (cases "label \<noteq> [] \<and> url_ok url")
      case True
      then have lu: "label \<noteq> []" "url_ok url" by simp_all
      from link_member_rest[OF lu(1) assms(2) lu(2), of b p]
      obtain q qs where m: "ms re_link (p, ?B @ b, Map.empty) = q # qs"
        by (cases "ms re_link (p, ?B @ b, Map.empty)") auto
      then have "q \<in> set (ms re_link (p, ?B @ b, Map.empty))" by simp
      from link_match_in_block(2)[OF this, of label url "[]"] Bne assms(2,3)
      obtain p' k' where q: "q = (p', b, k')" "k' 1 = Some label" "k' 2 = Some url" by auto
      from Bne have "length b < length (?B @ b)" by simp
      from replace_from_match[of re_link p "?B @ b" p' b k' qs anchor] m q(1) this
      have "replace_from re_link anchor p (?B @ b) =
              GetSubstitution anchor k' @ replace_from re_link anchor p' b" by simp
      with q True Nil have "replace_from re_link anchor p (a @ ?B @ b) =
          [] @ ?R @ replace_from re_link anchor p' b \<and> (0x5B \<notin> set a \<longrightarrow> [] = a)"
        by (simp add: subst_anchor anchor_for_def)
      then show ?thesis by blast
    next
      case False
      have no: "ms re_link (p', B2 @ b, Map.empty) = []" if "?B = B1 @ B2" "B2 \<noteq> []" for p' B1 B2
      proof (cases "ms re_link (p', B2 @ b, Map.empty)")
        case (Cons q qs)
        then have "q \<in> set (ms re_link (p', B2 @ b, Map.empty))" by simp
        from link_match_in_block(1)[OF this that assms(2,3)] assms(4) False show ?thesis by blast
      qed simp
      have "replace_from re_link anchor p (?B @ b) = ?B @ replace_from re_link anchor (Some (last ?B)) b"
      proof (rule copy_block[of ?B re_link b "[]"])
        show "\<And>B1 B2. ?B = B1 @ B2 \<Longrightarrow> B1 \<noteq> [] \<Longrightarrow> B2 \<noteq> [] \<Longrightarrow>
           ms re_link (Some (last B1), B2 @ b, Map.empty) = []" using no by blast
        show "?B = [] @ ?B" by simp
        show "?B \<noteq> []" by (rule Bne)
        show "ms re_link (p, ?B @ b, Map.empty) = []" using no[of "[]" ?B p] Bne by simp
      qed
      with Nil have "replace_from re_link anchor p (a @ ?B @ b) =
          [] @ ?B @ replace_from re_link anchor (Some (last ?B)) b \<and> (0x5B \<notin> set a \<longrightarrow> [] = a)"
        by simp
      then show ?thesis unfolding if_not_P[OF False] by blast
    qed
  next
    case (Cons x a1)
    show ?thesis
    proof (cases "ms re_link (p, a @ ?B @ b, Map.empty)")
      case Nil
      with Cons have "replace_from re_link anchor p (a @ ?B @ b) =
          x # replace_from re_link anchor (Some x) (a1 @ ?B @ b)"
        by (simp add: replace_from_nomatch)
      moreover from less.prems Cons have "spans_closed a1" by simp
      with less.hyps[of a1 "Some x"] Cons obtain a' b' where
        "replace_from re_link anchor (Some x) (a1 @ ?B @ b) = a' @ ?R @ b'" "0x5B \<notin> set a1 \<longrightarrow> a' = a1"
        by auto
      ultimately have "replace_from re_link anchor p (a @ ?B @ b) = (x # a') @ ?R @ b' \<and>
          (0x5B \<notin> set a \<longrightarrow> x # a' = a)" using Cons by simp
      then show ?thesis by blast
    next
      case m: (Cons q qs)
      then have i: "q \<in> set (ms re_link (p, a @ ?B @ b, Map.empty))" by simp
      from Cons have "a \<noteq> []" by simp
      from link_match_before[OF i this less.prems Bne] obtain d e p' k' where
        d: "a = d @ e" "d \<noteq> []" "q = (p', e @ ?B @ b, k')" by blast
      from i Cons have "q \<in> set (ms re_link (p, x # (a1 @ ?B @ b), Map.empty))" by simp
      with starts_link have "x = 0x5B" unfolding starts_def by blast
      with Cons have xa: "0x5B \<in> set a" by simp
      from d have "length (e @ ?B @ b) < length (a @ ?B @ b)" by simp
      from replace_from_match[of re_link p "a @ ?B @ b" p' "e @ ?B @ b" k' qs anchor] m d(3) this
      have r: "replace_from re_link anchor p (a @ ?B @ b) =
              GetSubstitution anchor k' @ replace_from re_link anchor p' (e @ ?B @ b)" by simp
      from d less.prems have "spans_closed e" using closed_suffix by blast
      with less.hyps[of e p'] d obtain a' b' where
        "replace_from re_link anchor p' (e @ ?B @ b) = a' @ ?R @ b'" by auto
      with r xa have "replace_from re_link anchor p (a @ ?B @ b) =
           (GetSubstitution anchor k' @ a') @ ?R @ b' \<and> (0x5B \<notin> set a \<longrightarrow> GetSubstitution anchor k' @ a' = a)"
        by simp
      then show ?thesis by blast
    qed
  qed
qed

section \<open>Escaping, white space and trimming\<close>

lemma escaped_stage:
  "replace (Chr 0x3E) [Lit (js ''&gt;'')]
     (replace (Chr 0x3C) [Lit (js ''&lt;'')]
       (replace (Chr 0x26) [Lit (js ''&amp;'')] s)) = escaped s"
  unfolding replace_def replace_Chr_Lit escaped_def
  by (induction s) (simp_all add: js_def)

lemma escaped_append [simp]: "escaped (a @ b) = escaped a @ escaped b"
  by (simp add: escaped_def)

lemma escaped_Nil [simp]: "escaped [] = []"
  by (simp add: escaped_def)

lemma escaped_Cons:
  "escaped (c # s) = (if c = 0x26 then js ''&amp;'' else if c = 0x3C then js ''&lt;''
                      else if c = 0x3E then js ''&gt;'' else [c]) @ escaped s"
  by (simp add: escaped_def)

lemma escaped_span: "escaped (span l u) = span (escaped l) (escaped u)"
  by (simp add: span_def escaped_Cons)

lemma escaped_empty [simp]: "escaped s = [] \<longleftrightarrow> s = []"
  by (cases s) (simp_all add: escaped_Cons js_def)

lemma escaped_units:
  assumes "x \<in> set (escaped s)"
  shows "(x \<in> set s \<and> x \<noteq> 0x3C \<and> x \<noteq> 0x3E) \<or> x \<in> set (js ''&amp;lt;gt'')"
  using assms by (induction s) (auto simp: escaped_Cons js_def split: if_splits)

lemma escaped_bracket: "filter bracket (escaped s) = filter bracket s"
  by (induction s) (auto simp: escaped_Cons js_def bracket_def)

lemma escaped_prefix:
  assumes "escaped u = s @ w" "\<forall>c \<in> set s. c \<noteq> 0x26"
  shows "\<exists>u'. u = s @ u' \<and> escaped u' = w"
  using assms
proof (induction s arbitrary: u)
  case Nil
  then show ?case by simp
next
  case (Cons c s)
  from Cons.prems obtain x u1 where u: "u = x # u1" by (cases u) auto
  with Cons.prems have x: "x = c" "escaped u1 = s @ w"
    by (auto simp: escaped_Cons js_def split: if_splits)
  from Cons.IH[OF x(2)] Cons.prems(2) obtain u' where "u1 = s @ u'" "escaped u' = w" by auto
  with u x show ?case by simp
qed

lemma escaped_url_ok: "url_ok (escaped u) \<longleftrightarrow> url_ok u"
proof
  assume "url_ok u"
  then obtain v where v: "u = js ''http://'' @ v \<or> u = js ''https://'' @ v" "v \<noteq> []"
    "\<forall>c \<in> set v. \<not> (isWhiteSpace c \<or> c = 0x29)" unfolding url_ok_def by blast
  have e: "escaped (js ''http://'') = js ''http://''" "escaped (js ''https://'') = js ''https://''"
    by (simp_all add: escaped_def js_def)
  have w: "\<not> (isWhiteSpace c \<or> c = 0x29)" if "c \<in> set (js ''&amp;lt;gt'')" for c
    using that by (auto simp: js_def isWhiteSpace_def isLineTerminator_def)
  from v(1) e have "escaped u = js ''http://'' @ escaped v \<or> escaped u = js ''https://'' @ escaped v"
    by auto
  moreover from v(2) have "escaped v \<noteq> []" by simp
  moreover have "\<forall>c \<in> set (escaped v). \<not> (isWhiteSpace c \<or> c = 0x29)"
    using escaped_units v(3) w by blast
  ultimately show "url_ok (escaped u)" unfolding url_ok_def by blast
next
  assume "url_ok (escaped u)"
  then obtain sch v where v: "escaped u = sch @ v" "sch = js ''http://'' \<or> sch = js ''https://''"
    "v \<noteq> []" "\<forall>c \<in> set v. \<not> (isWhiteSpace c \<or> c = 0x29)" unfolding url_ok_def by blast
  from v(2) have "\<forall>c \<in> set sch. c \<noteq> 0x26" by (auto simp: js_def)
  from escaped_prefix[OF v(1) this] obtain u' where u': "u = sch @ u'" "escaped u' = v" by blast
  from u'(2) v(3) have "u' \<noteq> []" by auto
  moreover have "\<not> (isWhiteSpace c \<or> c = 0x29)" if "c \<in> set u'" for c
  proof -
    have n: "\<not> isWhiteSpace 0x26" "\<not> isWhiteSpace 0x3C" "\<not> isWhiteSpace 0x3E"
      by (simp_all add: isWhiteSpace_def isLineTerminator_def)
    from that obtain x y where "u' = x @ c # y" by (meson split_list)
    then have "u' = x @ [c] @ y" by simp
    then have "escaped u' = escaped x @ escaped [c] @ escaped y" by (simp only: escaped_append)
    then have "c \<in> set (escaped u') \<or> c = 0x26 \<or> c = 0x3C \<or> c = 0x3E"
      by (auto simp: escaped_Cons)
    with u'(2) v(4) n show ?thesis by auto
  qed
  ultimately show "url_ok u" using u'(1) v(2) unfolding url_ok_def by blast
qed

lemma collapsed_white:
  "isWhiteSpace x \<Longrightarrow> collapsed (x # s) = 0x20 # collapsed (dropWhile isWhiteSpace s)"
proof (induction s arbitrary: x)
  case Nil
  then show ?case by simp
next
  case (Cons y s)
  then show ?case by (cases s) auto
qed

lemma collapsed_other: "\<not> isWhiteSpace x \<Longrightarrow> collapsed (x # s) = x # collapsed s"
  by (cases s) auto

lemma star_head:
  "\<exists>qs. ms (Star (Cls P)) (p, xs, k) = (prev p (takeWhile P xs), dropWhile P xs, k) # qs"
proof (induction xs arbitrary: p)
  case Nil
  show ?case by (simp add: star_cls_nil)
next
  case (Cons x xs)
  from Cons[of "Some x"] show ?case by (auto simp: star_cls_cons)
qed

lemma space_end: "replace_from (Plus space) tm p [] = []"
  by (rule replace_from_nil) (simp add: Plus_def space_def)

lemma white_stage:
  "replace_from (Plus space) [Lit (js '' '')] p s = collapsed s"
proof (induction "length s" arbitrary: s p rule: less_induct)
  case less
  show ?case
  proof (cases s)
    case Nil
    then show ?thesis by (simp add: space_end)
  next
    case (Cons x s')
    show ?thesis
    proof (cases "isWhiteSpace x")
      case False
      with Cons less[of s' "Some x"] show ?thesis by (simp add: space_skip collapsed_other)
    next
      case True
      from star_head[of isWhiteSpace "Some x" s' Map.empty] obtain qs where
        "ms (Star (Cls isWhiteSpace)) (Some x, s', Map.empty) =
           (prev (Some x) (takeWhile isWhiteSpace s'), dropWhile isWhiteSpace s', Map.empty) # qs" by blast
      with True Cons have m: "ms (Plus space) (p, s, Map.empty) =
           (prev (Some x) (takeWhile isWhiteSpace s'), dropWhile isWhiteSpace s', Map.empty) # qs"
        by (simp add: Plus_def space_def)
      have l: "length (dropWhile isWhiteSpace s') < length s"
        using Cons length_dropWhile_le[of isWhiteSpace s'] by simp
      from replace_from_match[OF m l, of "[Lit (js '' '')]"] less[OF l]
      have "replace_from (Plus space) [Lit (js '' '')] p s =
              0x20 # collapsed (dropWhile isWhiteSpace s')"
        by (simp add: GetSubstitution_def js_def)
      with True Cons show ?thesis by (simp add: collapsed_white)
    qed
  qed
qed

lemma collapsed_append_r:
  "y = [] \<or> \<not> isWhiteSpace (hd y) \<Longrightarrow> collapsed (x @ y) = collapsed x @ collapsed y"
proof (induction x rule: collapsed.induct)
  case 1
  then show ?case by simp
next
  case (2 x)
  then show ?case by (cases y) auto
next
  case (3 x z s)
  then show ?case by simp
qed

lemma collapsed_append_l:
  "x = [] \<or> \<not> isWhiteSpace (last x) \<Longrightarrow> collapsed (x @ y) = collapsed x @ collapsed y"
proof (induction x rule: collapsed.induct)
  case 1
  then show ?case by simp
next
  case (2 x)
  then show ?case by (simp add: collapsed_other)
next
  case (3 x z s)
  then show ?case by simp
qed

lemma collapsed_id: "\<forall>c \<in> set s. \<not> isWhiteSpace c \<Longrightarrow> collapsed s = s"
  by (induction s rule: collapsed.induct) auto

lemma collapsed_units: "c \<in> set (collapsed s) \<Longrightarrow> c \<in> set s \<or> c = 0x20"
  by (induction s rule: collapsed.induct) (auto split: if_splits)

lemma collapsed_empty [simp]: "collapsed s = [] \<longleftrightarrow> s = []"
  by (induction s rule: collapsed.induct) auto

lemma trim_around:
  assumes "B \<noteq> []" "\<not> isWhiteSpace (hd B)" "\<not> isWhiteSpace (last B)"
  shows "trim (a @ B @ b) = dropWhile isWhiteSpace a @ B @ rev (dropWhile isWhiteSpace (rev b))"
proof -
  from assms(1,2) have 1: "dropWhile isWhiteSpace (B @ b) = B @ b" by (cases B) auto
  have "dropWhile isWhiteSpace (a @ B @ b) = dropWhile isWhiteSpace a @ B @ b"
    using 1 by (simp add: dropWhile_append)
  moreover from assms(1,3) have 2: "dropWhile isWhiteSpace (rev B @ x) = rev B @ x" for x
    by (cases "rev B") (auto simp: last_rev[symmetric] simp del: last_rev)
  have "dropWhile isWhiteSpace (rev b @ rev B @ rev (dropWhile isWhiteSpace a)) =
        dropWhile isWhiteSpace (rev b) @ rev B @ rev (dropWhile isWhiteSpace a)"
    using 2 by (simp add: dropWhile_append)
  ultimately show ?thesis by (simp add: trim_def)
qed

section \<open>The formatter on a message with a link span\<close>

lemma entity_units:
  assumes "c \<in> set (js ''&amp;lt;gt'')"
  shows "\<not> isWhiteSpace c" "\<not> isLineTerminator c" "c \<noteq> 0x5D" "c \<noteq> 0x2A" "c \<noteq> 0x60" "c \<noteq> 0x29"
    "c \<noteq> 0x5B" "c \<noteq> 0x3C" "c \<noteq> 0x22"
  using assms by (auto simp: js_def isWhiteSpace_def isLineTerminator_def)

lemma escaped_label:
  assumes "\<forall>c \<in> set label. label_unit c" "c \<in> set (escaped label)"
  shows "\<not> isLineTerminator c" "c \<noteq> 0x5D" "c \<noteq> 0x2A" "c \<noteq> 0x60" "c \<noteq> 0x3C"
  using escaped_units[OF assms(2)] assms(1) entity_units[of c] by (auto simp: label_unit_def)

lemma escaped_url:
  assumes "\<forall>c \<in> set url. url_unit c" "c \<in> set (escaped url)"
  shows "\<not> isWhiteSpace c" "\<not> isLineTerminator c" "c \<noteq> 0x29" "c \<noteq> 0x2A" "c \<noteq> 0x60" "c \<noteq> 0x3C"
    "c \<noteq> 0x22"
proof -
  from escaped_units[OF assms(2)] assms(1) entity_units[of c]
  show w: "\<not> isWhiteSpace c" and "c \<noteq> 0x29" "c \<noteq> 0x2A" "c \<noteq> 0x60" "c \<noteq> 0x3C" "c \<noteq> 0x22"
    by (auto simp: url_unit_def)
  then show "\<not> isLineTerminator c" by (simp add: isWhiteSpace_def)
qed

lemma escaped_url_bracket:
  assumes "0x5B \<notin> set url"
  shows "0x5B \<notin> set (escaped url)"
  using escaped_units[of "0x5B" url] assms entity_units(7)[of "0x5B"] by blast

lemma inert_span:
  assumes "\<forall>c \<in> set label. label_unit c" "\<forall>c \<in> set url. url_unit c"
  shows "inert (span (escaped label) (escaped url))"
proof -
  have b: "\<not> isLineTerminator c \<and> c \<noteq> 0x2A \<and> c \<noteq> 0x60 \<and> c \<noteq> 0x3C"
    if "c = 0x5B \<or> c = 0x5D \<or> c = 0x28 \<or> c = 0x29" for c :: jschar
    using that by (auto simp: isLineTerminator_def)
  have "\<not> isLineTerminator c \<and> c \<noteq> 0x2A \<and> c \<noteq> 0x60 \<and> c \<noteq> 0x3C"
    if "c \<in> set (span (escaped label) (escaped url))" for c
  proof -
    from that consider "c = 0x5B \<or> c = 0x5D \<or> c = 0x28 \<or> c = 0x29"
      | "c \<in> set (escaped label)" | "c \<in> set (escaped url)"
      by (auto simp: span_def)
    then show ?thesis
    proof cases
      case 1
      then show ?thesis by (rule b)
    next
      case 2
      from escaped_label[OF assms(1) this] show ?thesis by simp
    next
      case 3
      from escaped_url[OF assms(2) this] show ?thesis by simp
    qed
  qed
  then show ?thesis unfolding inert_def by (simp add: span_def)
qed


lemma before_link_stage:
  assumes "inert B" "around B f t"
  shows "around B f
     (replace re_items (wrap ''<ol>'' ''</ol>'')
       (replace re_numbered (wrap ''<li>'' ''</li>'')
         (replace re_items (wrap ''<ul>'' ''</ul>'')
           (replace re_bullet (wrap ''<li>'' ''</li>'')
             (replace (Chr 0x0A) [Lit (js ''<br>'')]
               (replace (re_span ''```'' (Cls (\<lambda>c. isWhiteSpace c \<or> \<not> isWhiteSpace c)))
                    (wrap ''<pre><code>'' ''</code></pre>'')
                 (replace (re_span ''`'' dot) (wrap ''<code>'' ''</code>'')
                   (replace (re_span ''*'' dot) (wrap ''<em>'' ''</em>'')
                     (replace (re_span ''**'' dot) (wrap ''<strong>'' ''</strong>'')
                       (replace (re_heading ''# '') (wrap ''<h1>'' ''</h1>'')
                         (replace (re_heading ''## '') (wrap ''<h2>'' ''</h2>'')
                           (replace (re_heading ''### '') (wrap ''<h3>'' ''</h3>'') t))))))))))))"
proof -
  from assms(1) have ne: "B \<noteq> []" and u: "\<forall>c \<in> set B. c \<noteq> 0x2A \<and> c \<noteq> 0x60 \<and> c \<noteq> 0x0A"
    by (auto simp: inert_def isLineTerminator_def)
  have nb: "\<forall>c \<in> set (js ''<h3>''). \<not> bracket c" "\<forall>c \<in> set (js ''</h3>''). \<not> bracket c"
    "\<forall>c \<in> set (js ''<h2>''). \<not> bracket c" "\<forall>c \<in> set (js ''</h2>''). \<not> bracket c"
    "\<forall>c \<in> set (js ''<h1>''). \<not> bracket c" "\<forall>c \<in> set (js ''</h1>''). \<not> bracket c"
    "\<forall>c \<in> set (js ''<strong>''). \<not> bracket c" "\<forall>c \<in> set (js ''</strong>''). \<not> bracket c"
    "\<forall>c \<in> set (js ''<em>''). \<not> bracket c" "\<forall>c \<in> set (js ''</em>''). \<not> bracket c"
    "\<forall>c \<in> set (js ''<code>''). \<not> bracket c" "\<forall>c \<in> set (js ''</code>''). \<not> bracket c"
    "\<forall>c \<in> set (js ''<pre><code>''). \<not> bracket c" "\<forall>c \<in> set (js ''</code></pre>''). \<not> bracket c"
    "\<forall>c \<in> set (js ''<ul>''). \<not> bracket c" "\<forall>c \<in> set (js ''</ul>''). \<not> bracket c"
    "\<forall>c \<in> set (js ''<ol>''). \<not> bracket c" "\<forall>c \<in> set (js ''</ol>''). \<not> bracket c"
    by (simp_all add: js_def bracket_def)
  have hm: "0x5B \<notin> set (js ''### '')" "\<forall>c \<in> set (js ''### ''). \<not> bracket c" "js ''### '' \<noteq> []"
    "0x5B \<notin> set (js ''## '')" "\<forall>c \<in> set (js ''## ''). \<not> bracket c" "js ''## '' \<noteq> []"
    "0x5B \<notin> set (js ''# '')" "\<forall>c \<in> set (js ''# ''). \<not> bracket c" "js ''# '' \<noteq> []"
    by (simp_all add: js_def bracket_def)
  have sm: "js ''**'' \<noteq> []" "\<forall>c \<in> set (js ''**''). \<not> bracket c \<and> c \<notin> set B"
    "js ''*'' \<noteq> []" "\<forall>c \<in> set (js ''*''). \<not> bracket c \<and> c \<notin> set B"
    "js ''`'' \<noteq> []" "\<forall>c \<in> set (js ''`''). \<not> bracket c \<and> c \<notin> set B"
    "js ''```'' \<noteq> []" "\<forall>c \<in> set (js ''```''). \<not> bracket c \<and> c \<notin> set B"
    using u by (auto simp: js_def bracket_def)
  note st = around_stage[OF _ ne]
  have 1: "around B f (replace (re_heading ''### '') (wrap ''<h3>'' ''</h3>'') t)"
    by (rule st[OF protects_heading[OF assms(1) hm(1,2) nb(1,2) hm(3)] assms(2)])
  have 2: "around B f (replace (re_heading ''## '') (wrap ''<h2>'' ''</h2>'')
                         (replace (re_heading ''### '') (wrap ''<h3>'' ''</h3>'') t))"
    by (rule st[OF protects_heading[OF assms(1) hm(4,5) nb(3,4) hm(6)] 1])
  note 3 = st[OF protects_heading[OF assms(1) hm(7,8) nb(5,6) hm(9)] 2]
  note 4 = st[OF protects_span[OF assms(1) sm(1,2) nb(7,8)] 3, of "\<lambda>c. \<not> isLineTerminator c"]
  note 5 = st[OF protects_span[OF assms(1) sm(3,4) nb(9,10)] 4, of "\<lambda>c. \<not> isLineTerminator c"]
  note 6 = st[OF protects_span[OF assms(1) sm(5,6) nb(11,12)] 5, of "\<lambda>c. \<not> isLineTerminator c"]
  note 7 = st[OF protects_span[OF assms(1) sm(7,8) nb(13,14)] 6,
              of "\<lambda>c. isWhiteSpace c \<or> \<not> isWhiteSpace c"]
  have br: "0x0A \<notin> set B" "\<not> bracket 0x0A" "filter bracket (js ''<br>'') = []"
    using u by (auto simp: js_def bracket_def)
  note 8 = around_Chr[OF br 7]
  note 9 = st[OF protects_bullet[OF assms(1)] 8]
  note 10 = st[OF protects_items[OF assms(1) nb(15,16)] 9]
  note 11 = st[OF protects_numbered[OF assms(1)] 10]
  note 12 = st[OF protects_items[OF assms(1) nb(17,18)] 11]
  from 12 show ?thesis unfolding dot_def .
qed

lemma anchor_units:
  assumes "\<forall>c \<in> set l. \<not> isLineTerminator c" "\<forall>c \<in> set u. \<not> isLineTerminator c"
  shows "\<forall>c \<in> set (anchor_for l u). \<not> isLineTerminator c"
  using assms by (auto simp: anchor_for_def js_def isLineTerminator_def)

lemma collapsed_anchor:
  assumes "\<forall>c \<in> set u. \<not> isWhiteSpace c"
  shows "collapsed (anchor_for l u) = anchor_for (collapsed l) u"
proof -
  let ?a = "js ''<a href=\"''" and ?b = "js ''\" target=\"_blank\" rel=\"noopener noreferrer\">''"
  let ?c = "js ''</a>''"
  have a: "collapsed ?a = ?a" "?a \<noteq> []" "\<not> isWhiteSpace (last ?a)"
    by (simp_all add: js_def isWhiteSpace_def isLineTerminator_def)
  have b: "collapsed ?b = ?b" "?b \<noteq> []" "\<not> isWhiteSpace (hd ?b)" "\<not> isWhiteSpace (last ?b)"
    by (simp_all add: js_def isWhiteSpace_def isLineTerminator_def)
  have c: "collapsed ?c = ?c" "?c \<noteq> []" "\<not> isWhiteSpace (hd ?c)"
    by (simp_all add: js_def isWhiteSpace_def isLineTerminator_def)
  have "collapsed (?a @ (u @ ?b @ l @ ?c)) = ?a @ collapsed (u @ (?b @ l @ ?c))"
    using collapsed_append_l[of ?a] a by simp
  also have "collapsed (u @ (?b @ l @ ?c)) = u @ collapsed (?b @ (l @ ?c))"
    using collapsed_append_r[of "?b @ l @ ?c" u] b collapsed_id[OF assms] by simp
  also have "collapsed (?b @ (l @ ?c)) = ?b @ collapsed (l @ ?c)"
    using collapsed_append_l[of ?b] b by simp
  also have "collapsed (l @ ?c) = collapsed l @ ?c"
    using collapsed_append_r[of ?c l] c by simp
  finally show ?thesis by (simp add: anchor_for_def)
qed

lemma collapsed_span:
  assumes "\<forall>c \<in> set u. \<not> isWhiteSpace c"
  shows "collapsed (span l u) = span (collapsed l) u"
proof -
  have w: "\<not> isWhiteSpace 0x5B" "\<not> isWhiteSpace 0x5D" "\<not> isWhiteSpace 0x28" "\<not> isWhiteSpace 0x29"
    by (simp_all add: isWhiteSpace_def isLineTerminator_def)
  have "collapsed ([0x5B] @ (l @ 0x5D # 0x28 # u @ [0x29])) =
          [0x5B] @ collapsed (l @ ([0x5D, 0x28] @ u @ [0x29]))"
    using collapsed_append_l[of "[0x5B]"] w by simp
  also have "collapsed (l @ ([0x5D, 0x28] @ u @ [0x29])) = collapsed l @ collapsed ([0x5D, 0x28] @ u @ [0x29])"
    using collapsed_append_r[of "[0x5D, 0x28] @ u @ [0x29]" l] w by simp
  also have "collapsed ([0x5D, 0x28] @ u @ [0x29]) = [0x5D, 0x28] @ u @ [0x29]"
    by (rule collapsed_id) (use assms w in auto)
  finally show ?thesis by (simp add: span_def)
qed

lemma format_stages:
  "s \<noteq> [] \<Longrightarrow> formatMessageText s =
     trim (replace (Plus space) [Lit (js '' '')]
       (replace re_paragraph (wrap ''<p>'' ''</p>'')
         (replace re_link anchor
     (replace re_items (wrap ''<ol>'' ''</ol>'')
       (replace re_numbered (wrap ''<li>'' ''</li>'')
         (replace re_items (wrap ''<ul>'' ''</ul>'')
           (replace re_bullet (wrap ''<li>'' ''</li>'')
             (replace (Chr 0x0A) [Lit (js ''<br>'')]
               (replace (re_span ''```'' (Cls (\<lambda>c. isWhiteSpace c \<or> \<not> isWhiteSpace c)))
                    (wrap ''<pre><code>'' ''</code></pre>'')
                 (replace (re_span ''`'' dot) (wrap ''<code>'' ''</code>'')
                   (replace (re_span ''*'' dot) (wrap ''<em>'' ''</em>'')
                     (replace (re_span ''**'' dot) (wrap ''<strong>'' ''</strong>'')
                       (replace (re_heading ''# '') (wrap ''<h1>'' ''</h1>'')
                         (replace (re_heading ''## '') (wrap ''<h2>'' ''</h2>'')
                           (replace (re_heading ''### '') (wrap ''<h3>'' ''</h3>'')
                              (escaped s))))))))))))))))"
  by (simp add: formatMessageText_def Let_def escaped_stage)

text \<open>
  C9 (amended). Take a message that holds a span \<^verbatim>\<open>[label](url)\<close>, behind a text that
  leaves no earlier span open and before any text. The formatter's result holds, in place
  of the span, the anchor
  \<^verbatim>\<open><a href="url" target="_blank" rel="noopener noreferrer">label</a>\<close> if the label is
  not empty and the url is \<^verbatim>\<open>http://\<close> or \<^verbatim>\<open>https://\<close> followed by at least one code
  unit, and the span as it was written otherwise; label and url stand there with
  \<^verbatim>\<open>&\<close>, \<^verbatim>\<open><\<close>, \<^verbatim>\<open>>\<close> escaped and the white space of the label collapsed. When no
  \<^verbatim>\<open>[\<close> stands before the span, none stands before it in the result.
\<close>

theorem format_link_span:
  assumes "\<forall>c \<in> set label. label_unit c" "\<forall>c \<in> set url. url_unit c"
    and "(label \<noteq> [] \<and> url_ok url) \<or> 0x5B \<notin> set url" and "spans_closed pre"
  shows "\<exists>before after.
     formatMessageText (pre @ span label url @ post) =
       before @
       (if label \<noteq> [] \<and> url_ok url then anchor_for (collapsed (escaped label)) (escaped url)
        else span (collapsed (escaped label)) (escaped url)) @
       after \<and>
     (0x5B \<notin> set pre \<longrightarrow> 0x5B \<notin> set before)"
proof -
  let ?L = "escaped label" and ?U = "escaped url"
  let ?M = "span ?L ?U"
  let ?s = "pre @ span label url @ post"
  define R where "R = (if ?L \<noteq> [] \<and> url_ok ?U then anchor_for ?L ?U else span ?L ?U)"
  define R' where "R' = (if label \<noteq> [] \<and> url_ok url then anchor_for (collapsed ?L) ?U
                        else span (collapsed ?L) ?U)"
  have ne: "?s \<noteq> []" by (simp add: span_def)
  have i: "inert ?M" by (rule inert_span[OF assms(1,2)])
  have "escaped ?s = escaped pre @ ?M @ escaped post" by (simp add: escaped_span)
  then have "around ?M (filter bracket pre) (escaped ?s)"
    unfolding around_def using escaped_bracket by blast
  from before_link_stage[OF i this] obtain a b where
    t: "replace re_items (wrap ''<ol>'' ''</ol>'')
       (replace re_numbered (wrap ''<li>'' ''</li>'')
         (replace re_items (wrap ''<ul>'' ''</ul>'')
           (replace re_bullet (wrap ''<li>'' ''</li>'')
             (replace (Chr 0x0A) [Lit (js ''<br>'')]
               (replace (re_span ''```'' (Cls (\<lambda>c. isWhiteSpace c \<or> \<not> isWhiteSpace c)))
                    (wrap ''<pre><code>'' ''</code></pre>'')
                 (replace (re_span ''`'' dot) (wrap ''<code>'' ''</code>'')
                   (replace (re_span ''*'' dot) (wrap ''<em>'' ''</em>'')
                     (replace (re_span ''**'' dot) (wrap ''<strong>'' ''</strong>'')
                       (replace (re_heading ''# '') (wrap ''<h1>'' ''</h1>'')
                         (replace (re_heading ''## '') (wrap ''<h2>'' ''</h2>'')
                           (replace (re_heading ''### '') (wrap ''<h3>'' ''</h3>'')
                              (escaped ?s)))))))))))) = a @ ?M @ b"
    and fa: "filter bracket a = filter bracket pre"
    unfolding around_def by blast
  from fa assms(4) have ca: "spans_closed a" using closed_filter by metis
  have la: "0x5B \<notin> set a" if "0x5B \<notin> set pre"
  proof
    assume "0x5B \<in> set a"
    then have "0x5B \<in> set (filter bracket a)" by (simp add: bracket_def)
    with fa have "0x5B \<in> set pre" by simp
    with that show False by simp
  qed
  have L: "0x5D \<notin> set ?L" using escaped_label(2)[OF assms(1)] by auto
  have U: "0x29 \<notin> set ?U" "(?L \<noteq> [] \<and> url_ok ?U) \<or> 0x5B \<notin> set ?U"
    using escaped_url(3)[OF assms(2)] assms(3) escaped_url_ok escaped_url_bracket by auto
  have "\<exists>x y. replace re_link anchor (a @ ?M @ b) = x @ R @ y \<and> (0x5B \<notin> set a \<longrightarrow> x = a)"
    unfolding replace_def R_def by (rule link_stage_block[OF ca L U(1) U(2)])
  then obtain a' b' where
    k: "replace re_link anchor (a @ ?M @ b) = a' @ R @ b'" and ka: "0x5B \<notin> set a \<longrightarrow> a' = a"
    by blast
  have nl: "\<forall>c \<in> set ?L. \<not> isLineTerminator c" "\<forall>c \<in> set ?U. \<not> isLineTerminator c"
    using escaped_label(1)[OF assms(1)] escaped_url(2)[OF assms(2)] by blast+
  have Rl: "\<forall>c \<in> set R. \<not> isLineTerminator c"
    unfolding R_def using anchor_units[OF nl] i by (simp add: inert_def)
  have Rne: "R \<noteq> []" unfolding R_def by (simp add: anchor_for_def span_def js_def)
  have "\<exists>x y. replace re_paragraph (wrap ''<p>'' ''</p>'') (a' @ R @ b') = x @ R @ y \<and>
      filter bracket x = filter bracket a'"
    unfolding replace_def by (rule protected_stage[OF protects_paragraph[OF Rne Rl] Rne])
  then obtain a'' b'' where
    g: "replace re_paragraph (wrap ''<p>'' ''</p>'') (a' @ R @ b') = a'' @ R @ b''"
    and ga: "filter bracket a'' = filter bracket a'"
    by blast
  have w: "\<forall>c \<in> set ?U. \<not> isWhiteSpace c" using escaped_url(1)[OF assms(2)] by blast
  have cR: "collapsed R = R'"
    unfolding R_def R'_def using collapsed_anchor[OF w] collapsed_span[OF w] escaped_url_ok by simp
  have e: "\<not> isWhiteSpace (hd R)" "\<not> isWhiteSpace (last R)"
    "R' \<noteq> []" "\<not> isWhiteSpace (hd R')" "\<not> isWhiteSpace (last R')"
    unfolding R_def R'_def
    by (simp_all add: anchor_for_def span_def js_def isWhiteSpace_def isLineTerminator_def)
  have "collapsed (a'' @ (R @ b'')) = collapsed a'' @ collapsed (R @ b'')"
    using collapsed_append_r[of "R @ b''" a''] Rne e(1) by simp
  also have "collapsed (R @ b'') = collapsed R @ collapsed b''"
    using collapsed_append_l[of R b''] e(2) by simp
  finally have c: "replace (Plus space) [Lit (js '' '')] (a'' @ R @ b'') =
      collapsed a'' @ R' @ collapsed b''"
    unfolding replace_def white_stage cR by simp
  have f: "formatMessageText ?s =
      dropWhile isWhiteSpace (collapsed a'') @ R' @ rev (dropWhile isWhiteSpace (rev (collapsed b'')))"
    unfolding format_stages[OF ne] t k g c by (rule trim_around[OF e(3,4,5)])
  have "0x5B \<notin> set (dropWhile isWhiteSpace (collapsed a''))" if "0x5B \<notin> set pre"
  proof
    assume "0x5B \<in> set (dropWhile isWhiteSpace (collapsed a''))"
    then have "0x5B \<in> set (collapsed a'')" by (rule set_dropWhileD)
    with collapsed_units have "0x5B \<in> set a''" by fastforce
    then have "0x5B \<in> set (filter bracket a'')" by (simp add: bracket_def)
    with ga have "0x5B \<in> set a'" by simp
    with ka la[OF that] show False by simp
  qed
  with f show ?thesis unfolding R'_def by blast
qed

theorem format_link_span_witness:
  "list_all label_unit (js ''my link'') \<and> list_all url_unit (js ''http://a.b/c?x=1&y=2'') \<and>
   url_ok (js ''http://a.b/c?x=1&y=2'') \<and> spans_closed (js ''see '') \<and>
   (\<exists>before after.
      formatMessageText (js ''see [my link](http://a.b/c?x=1&y=2) here'') =
        before @
        js ''<a href=\"http://a.b/c?x=1&amp;y=2\" target=\"_blank\" rel=\"noopener noreferrer\">my link</a>'' @
        after \<and>
      0x5B \<notin> set before) \<and>
   list_all label_unit (js ''b'') \<and> list_all url_unit (js ''ftp://z'') \<and>
   \<not> url_ok (js ''ftp://z'') \<and> 0x5B \<notin> set (js ''ftp://z'') \<and> spans_closed (js ''[a](http://x.y) and '') \<and>
   (\<exists>before after.
      formatMessageText (js ''[a](http://x.y) and [b](ftp://z)'') = before @ js ''[b](ftp://z)'' @ after)"
proof -
  have l: "\<forall>c \<in> set (js ''my link''). label_unit c" "\<forall>c \<in> set (js ''b''). label_unit c"
    by (simp_all add: js_def label_unit_def isLineTerminator_def)
  have u: "\<forall>c \<in> set (js ''http://a.b/c?x=1&y=2''). url_unit c" "\<forall>c \<in> set (js ''ftp://z''). url_unit c"
    by (simp_all add: js_def url_unit_def isWhiteSpace_def isLineTerminator_def)
  have y: "url_ok (js ''http://a.b/c?x=1&y=2'')"
    unfolding url_ok_def
    by (rule exI[of _ "js ''a.b/c?x=1&y=2''"]) (simp add: js_def isWhiteSpace_def isLineTerminator_def)
  have n: "\<not> url_ok (js ''ftp://z'')" "0x5B \<notin> set (js ''ftp://z'')"
    by (simp_all add: url_ok_def js_def)
  have c: "spans_closed (js ''see '')" "spans_closed (js ''[a](http://x.y) and '')"
    by (simp_all add: js_def)
  have e1: "js ''see '' @ span (js ''my link'') (js ''http://a.b/c?x=1&y=2'') @ js '' here'' =
            js ''see [my link](http://a.b/c?x=1&y=2) here''"
    by (simp add: span_def js_def)
  have e2: "anchor_for (collapsed (escaped (js ''my link''))) (escaped (js ''http://a.b/c?x=1&y=2'')) =
            js ''<a href=\"http://a.b/c?x=1&amp;y=2\" target=\"_blank\" rel=\"noopener noreferrer\">my link</a>''"
    by (simp add: anchor_for_def escaped_def js_def isWhiteSpace_def isLineTerminator_def)
  have e3: "js ''[a](http://x.y) and '' @ span (js ''b'') (js ''ftp://z'') @ [] =
            js ''[a](http://x.y) and [b](ftp://z)''"
    by (simp add: span_def js_def)
  have e4: "span (collapsed (escaped (js ''b''))) (escaped (js ''ftp://z'')) = js ''[b](ftp://z)''"
    by (simp add: span_def escaped_def js_def isWhiteSpace_def isLineTerminator_def)
  have ne: "js ''my link'' \<noteq> []" by (simp add: js_def)
  from format_link_span[OF l(1) u(1) _ c(1), of "js '' here''"] y ne
  have 1: "\<exists>before after.
      formatMessageText (js ''see [my link](http://a.b/c?x=1&y=2) here'') =
        before @
        js ''<a href=\"http://a.b/c?x=1&amp;y=2\" target=\"_blank\" rel=\"noopener noreferrer\">my link</a>'' @
        after \<and>
      0x5B \<notin> set before"
    unfolding e1 e2 by (simp add: js_def)
  from format_link_span[OF l(2) u(2) _ c(2), of "[]"] n
  have 2: "\<exists>before after.
      formatMessageText (js ''[a](http://x.y) and [b](ftp://z)'') = before @ js ''[b](ftp://z)'' @ after"
    unfolding e3 e4 by auto
  from l u y n c 1 2 show ?thesis by (simp add: list_all_iff)
qed

text \<open>
  C9 as stated fails on \<^verbatim>\<open>[x](http://)\<close>: the url begins with \<^verbatim>\<open>http://\<close>, and the span
  is not turned into an anchor.
\<close>

theorem link_bare_scheme_counterexample:
  "take 7 (js ''http://'') = js ''http://'' \<and>
   formatMessageText (span (js ''x'') (js ''http://'')) = js ''<p>[x](http://)</p>'' \<and>
   formatMessageText (span (js ''x'') (js ''http://'')) \<noteq>
     js ''<p>'' @ anchor_for (js ''x'') (js ''http://'') @ js ''</p>''"
proof -
  have "formatMessageText (span (js ''x'') (js ''http://'')) = js ''<p>[x](http://)</p>''"
    by code_simp
  then show ?thesis by (simp add: anchor_for_def js_def)
qed

section \<open>Results on concrete inputs\<close>

text \<open>
  C2. On the two bulleted lines \<^verbatim>\<open>- a\<close> and \<^verbatim>\<open>- b\<close> the formatter returns one list
  item, not two: the line feed has already become a line-break marker when the list
  pattern runs, so the second line is part of the first item; the item is wrapped in a
  bulleted and in a numbered container.
\<close>

theorem format_two_bullets:
  "formatMessageText (js ''- a\<newline>- b'') = js ''<ul><ol><li>a<br>- b</li></ol></ul>''"
  by code_simp

text \<open>
  C3. On \<^verbatim>\<open># Title\<close> the formatter returns a level-1 heading that the paragraph stage
  has wrapped in a paragraph element: the heading tags are not among the tags its
  lookahead excludes.
\<close>

theorem format_heading_title:
  "formatMessageText (js ''# Title'') = js ''<p><h1>Title</h1></p>''"
  by code_simp

end
